theory Spec2Isabelle
  imports Main "HOL-Library.AList"
begin

section \<open>The graph model read by the viewer\<close>

text \<open>
  \<^verbatim>\<open>src/atopile/viewer/render.py\<close> lowers the typed graph of a design to a tree of
  Blocks with Pins and Links. The graph itself (\<^verbatim>\<open>atopile.model.model\<close>), the vertex
  view (\<^verbatim>\<open>atopile.model.accessors.ModelVertexView\<close>), the visitor base class and
  \<^verbatim>\<open>resolve_rel_name\<close> are imported by the file and are not part of it.
\<close>

datatype VertexType = file' | module | component | interface | pin | signal

datatype EdgeType = part_of | instance_of | connects_to

text \<open>The name of an enumeration member, \<^verbatim>\<open>vertex.vertex_type.name\<close>.\<close>

fun vertex_type_name :: "VertexType \<Rightarrow> string" where
  "vertex_type_name file' = ''file''"
| "vertex_type_name module = ''module''"
| "vertex_type_name component = ''component''"
| "vertex_type_name interface = ''interface''"
| "vertex_type_name pin = ''pin''"
| "vertex_type_name signal = ''signal''"

text \<open>
  Python values that travel through the builder untouched (\<^verbatim>\<open>Dict[str, Any]\<close>) and the
  nested dictionaries that \<^verbatim>\<open>to_dict\<close> returns. A dictionary keeps its insertion order.
\<close>

datatype pyval =
    PNone
  | PStr string
  | PInt int
  | PList "pyval list"
  | PDict "(string \<times> pyval) list"

text \<open>\<^verbatim>\<open>d.get(key, default)\<close> on a dictionary.\<close>

definition dict_get :: "(string \<times> pyval) list \<Rightarrow> string \<Rightarrow> pyval \<Rightarrow> pyval" where
  "dict_get d k dflt = (case map_of d k of None \<Rightarrow> dflt | Some x \<Rightarrow> x)"

text \<open>An edge of the igraph graph: \<^verbatim>\<open>edge.source\<close>, \<^verbatim>\<open>edge.target\<close>, \<^verbatim>\<open>edge["type"]\<close>.\<close>

record Edge =
  edge_source :: nat
  edge_target :: nat
  edge_type :: EdgeType

text \<open>What the code can raise.\<close>

datatype error =
    KeyError string
  | UnboundLocalError
  | RecursionError
  | DispatchError
  | CollaboratorError string

text \<open>
  Modelled from the spec: the Graph Model of section 6, whose code is not among the
  source files. A vertex is its integer index (a \<^verbatim>\<open>ModelVertexView\<close>
  is a model and an index, and the model is fixed during a build); igraph only has
  edges between existing vertices, so the attribute columns are total functions of the
  index. \<^verbatim>\<open>es\<close> lists the edges in edge-index order. \<^verbatim>\<open>data\<close> is \<^verbatim>\<open>model.data\<close>,
  keyed by path, and \<^verbatim>\<open>vertex_data\<close> is the field mapping \<^verbatim>\<open>vertex.data\<close> of the
  view. \<^verbatim>\<open>resolve_rel_name\<close> (least common ancestor and connection name of a list of
  vertices) and \<^verbatim>\<open>relative_mvv_path\<close> (the vertices on the way from an ancestor to a
  descendant) are consumed as they are; both may raise.
\<close>

record Model =
  vertex_type :: "nat \<Rightarrow> VertexType"
  ref :: "nat \<Rightarrow> string"
  path :: "nat \<Rightarrow> string"
  parent_path :: "nat \<Rightarrow> string"
  vertex_data :: "nat \<Rightarrow> (string \<times> pyval) list"
  es :: "Edge list"
  data :: "string \<rightharpoonup> (string \<times> pyval) list"
  resolve_rel_name :: "nat list \<Rightarrow> error + nat \<times> string"
  relative_mvv_path :: "nat \<Rightarrow> nat \<Rightarrow> error + nat list"

datatype mode = mode_in | mode_out

text \<open>
  Modelled from the spec: \<^verbatim>\<open>ModelVertexView.get_edges(mode, edge_type)\<close>, the edges of
  one type that end at the vertex (mode "in") or start at it (mode "out"), in edge
  order.
\<close>

definition get_edges :: "Model \<Rightarrow> nat \<Rightarrow> mode \<Rightarrow> EdgeType \<Rightarrow> Edge list" where
  "get_edges m v md et =
     filter (\<lambda>e. edge_type e = et \<and>
                 (case md of mode_in \<Rightarrow> edge_target e = v | mode_out \<Rightarrow> edge_source e = v))
            (es m)"

text \<open>
  Modelled from the spec: \<^verbatim>\<open>ModelVertexView.get_adjacents(mode, edge_type)\<close>, the
  vertices at the other end of those edges.
\<close>

definition get_adjacents :: "Model \<Rightarrow> nat \<Rightarrow> mode \<Rightarrow> EdgeType \<Rightarrow> nat list" where
  "get_adjacents m v md et =
     map (\<lambda>e. case md of mode_in \<Rightarrow> edge_source e | mode_out \<Rightarrow> edge_target e)
         (get_edges m v md et)"

section \<open>The output tree\<close>

record Pin =
  pin_name :: string
  pin_fields :: pyval

record Link =
  link_name :: string
  link_source :: string
  link_target :: string

text \<open>
  A Block is a mutable object: the builder keeps it both in its parent's \<^verbatim>\<open>blocks\<close>
  list and in \<^verbatim>\<open>block_directory_by_path\<close>, and \<^verbatim>\<open>build\<close> appends links through the
  directory. Blocks therefore live in a store, a list indexed by address, and
  \<^verbatim>\<open>block_blocks\<close> holds the addresses of the children.
\<close>

record Block =
  block_name :: string
  block_type :: string
  block_fields :: "(string \<times> pyval) list"
  block_blocks :: "nat list"
  block_pins :: "Pin list"
  block_links :: "Link list"
  block_instance_of :: "string option"
  block_source :: nat

text \<open>
  The builder \<^verbatim>\<open>Bob\<close>: its four attributes, the store of the Blocks it has made, and
  the lines written by \<^verbatim>\<open>log.warning\<close>. The two dictionaries are association lists
  in insertion order: \<^verbatim>\<open>d[k] = v\<close> is \<open>AList.update k v d\<close> and a lookup is \<open>map_of d k\<close>.
  \<^verbatim>\<open>pin_directory_by_vid\<close> is written and never read; the model stores the pin as
  \<^verbatim>\<open>generic_visit_pin\<close> made it.
\<close>

record Bob =
  all_verticies :: "nat list"
  block_stack :: "nat list"
  block_directory_by_path :: "(string \<times> nat) list"
  pin_directory_by_vid :: "(nat \<times> Pin) list"
  heap :: "Block list"
  warnings :: "string list"

definition Bob_init :: Bob where
  "Bob_init = \<lparr> all_verticies = [], block_stack = [], block_directory_by_path = [],
                pin_directory_by_vid = [], heap = [], warnings = [] \<rparr>"

section \<open>Pins and signals\<close>

text \<open>\<^verbatim>\<open>Bob.generic_visit_pin\<close>\<close>

definition generic_visit_pin :: "Model \<Rightarrow> nat \<Rightarrow> Bob \<Rightarrow> Pin \<times> Bob" where
  "generic_visit_pin m v s =
     (let vertex_data = (case data m (path m v) of None \<Rightarrow> [] | Some d \<Rightarrow> d);
          p = \<lparr> pin_name = ref m v, pin_fields = dict_get vertex_data ''fields'' (PDict []) \<rparr>
      in (p, s\<lparr> pin_directory_by_vid := AList.update v p (pin_directory_by_vid s) \<rparr>))"

text \<open>
  \<^verbatim>\<open>Bob.visit_pin\<close>. The local \<^verbatim>\<open>target\<close> is assigned by two consecutive \<^verbatim>\<open>if\<close>
  statements and is unbound when neither fires; the result is \<^verbatim>\<open>None\<close> for an elided
  pin.
\<close>

definition visit_pin :: "Model \<Rightarrow> nat \<Rightarrow> Bob \<Rightarrow> error + Pin option \<times> Bob" where
  "visit_pin m v s =
     (let s1 = s\<lparr> all_verticies := all_verticies s @ [v] \<rparr>;
          connections_in = get_edges m v mode_in connects_to;
          connections_out = get_edges m v mode_out connects_to
      in if length connections_in + length connections_out = 1 then
           (let target0 = (if length connections_in = 1
                           then Some (edge_source (connections_in ! 0)) else None);
                target1 = (if length connections_out = 1
                           then Some (edge_target (connections_out ! 0)) else target0)
            in case target1 of
                 None \<Rightarrow> Inl UnboundLocalError
               | Some target \<Rightarrow>
                   if vertex_type m target = signal \<and> parent_path m target = parent_path m v
                   then Inr (None, s1)
                   else (case generic_visit_pin m v s1 of (p, s2) \<Rightarrow> Inr (Some p, s2)))
         else (case generic_visit_pin m v s1 of (p, s2) \<Rightarrow> Inr (Some p, s2)))"

text \<open>\<^verbatim>\<open>Bob.visit_signal\<close>\<close>

definition visit_signal :: "Model \<Rightarrow> nat \<Rightarrow> Bob \<Rightarrow> Pin \<times> Bob" where
  "visit_signal m v s = generic_visit_pin m v (s\<lparr> all_verticies := all_verticies s @ [v] \<rparr>)"

section \<open>Rendering a relative path\<close>

text \<open>\<^verbatim>\<open>sep.join(parts)\<close>\<close>

fun join :: "string \<Rightarrow> string list \<Rightarrow> string" where
  "join sep [] = []"
| "join sep [x] = x"
| "join sep (x # y # ys) = x @ sep @ join sep (y # ys)"

text \<open>
  \<^verbatim>\<open>_mod_path\<close>, the function local to \<^verbatim>\<open>Bob.build\<close>: the loop over
  \<^verbatim>\<open>enumerate(mvv_path)\<close> from index \<open>i\<close> on, returning at the first interface.
\<close>

function mod_path_loop :: "Model \<Rightarrow> nat list \<Rightarrow> nat \<Rightarrow> string" where
  "mod_path_loop m mvv_path i =
     (if i < length mvv_path then
        (if vertex_type m (mvv_path ! i) = interface then
           (let pre_inf = take i mvv_path; post_inf = drop i mvv_path
            in join ''.'' (map (ref m) pre_inf) @ ''.'' @ join ''-'' (map (ref m) post_inf))
         else mod_path_loop m mvv_path (Suc i))
      else join ''.'' (map (ref m) mvv_path))"
  by pat_completeness auto
termination
  by (relation "measure (\<lambda>(m, mvv_path, i). length mvv_path - i)") auto

definition mod_path :: "Model \<Rightarrow> nat list \<Rightarrow> string" where
  "mod_path m mvv_path = mod_path_loop m mvv_path 0"

section \<open>The traversal\<close>

text \<open>
  Modelled from the spec: \<^verbatim>\<open>ModelVisitor.wander(vertex, mode, edge_type, vertex_type)\<close>
  visits, in order, the adjacent vertices whose type is in \<^verbatim>\<open>vertex_type\<close> and returns
  the list of the results; \<^verbatim>\<open>ModelVisitor.visit\<close> dispatches on the type tag to
  \<^verbatim>\<open>visit_<type>\<close>, and a type with no rule fails loudly (section 7). This is the list
  of vertices \<^verbatim>\<open>wander\<close> visits.
\<close>

definition wander_targets :: "Model \<Rightarrow> nat \<Rightarrow> mode \<Rightarrow> EdgeType \<Rightarrow> VertexType list \<Rightarrow> nat list" where
  "wander_targets m v md et vts =
     filter (\<lambda>c. vertex_type m c \<in> set vts) (get_adjacents m v md et)"

text \<open>
  What \<^verbatim>\<open>visit\<close> returns for a pin, a signal or an interface: \<^verbatim>\<open>None\<close>, one Pin, or
  a list of Pins.
\<close>

datatype listy_pin = NoPin | OnePin Pin | ListPins "Pin list"

text \<open>The loop of \<^verbatim>\<open>wander_interface\<close> over the results that are not \<^verbatim>\<open>None\<close>.\<close>

fun flatten_listy :: "listy_pin list \<Rightarrow> Pin list" where
  "flatten_listy [] = []"
| "flatten_listy (NoPin # r) = flatten_listy r"
| "flatten_listy (OnePin p # r) = [p] @ flatten_listy r"
| "flatten_listy (ListPins ps # r) = ps @ flatten_listy r"

text \<open>The line that \<^verbatim>\<open>log.warning\<close> writes in \<^verbatim>\<open>generic_visit_block\<close>.\<close>

definition multiple_warning :: "Model \<Rightarrow> nat \<Rightarrow> string" where
  "multiple_warning m v = ''Block '' @ path m v @ '' is an instance_of multiple things''"


text \<open>
  The second half of \<^verbatim>\<open>generic_visit_block\<close>, after the children have been visited:
  the instance check, the new Block, its entry in the directory, and the end of
  \<^verbatim>\<open>block_context\<close>.
\<close>

definition finish_block :: "Model \<Rightarrow> nat \<Rightarrow> nat list \<Rightarrow> Pin list \<Rightarrow> Bob \<Rightarrow> nat \<times> Bob" where
  "finish_block m v blocks pins s3 =
     (let instance_ofs = get_adjacents m v mode_out instance_of;
          s4 = (if length instance_ofs > 0
                then (if length instance_ofs > 1
                      then s3\<lparr> warnings := warnings s3 @ [multiple_warning m v] \<rparr>
                      else s3)
                else s3);
          inst = (if length instance_ofs > 0
                  then Some (path m (instance_ofs ! 0)) else None);
          block = \<lparr> block_name = ref m v,
                    block_type = vertex_type_name (vertex_type m v),
                    block_fields = vertex_data m v,
                    block_blocks = blocks,
                    block_pins = pins,
                    block_links = [],
                    block_instance_of = inst,
                    block_source = v \<rparr>;
          a = length (heap s4)
      in (a, s4\<lparr> heap := heap s4 @ [block],
                  block_directory_by_path :=
                    AList.update (path m v) a (block_directory_by_path s4),
                  block_stack := butlast (block_stack s4) \<rparr>))"

text \<open>
  \<^verbatim>\<open>visit\<close> on a child that is not an interface: \<^verbatim>\<open>visit_pin\<close> or \<^verbatim>\<open>visit_signal\<close>. The
  children that \<^verbatim>\<open>wander_interface\<close> asks for are pins, signals and interfaces, so the
  last branch is never taken during a traversal.
\<close>

definition visit_leaf :: "Model \<Rightarrow> nat \<Rightarrow> Bob \<Rightarrow> error + listy_pin \<times> Bob" where
  "visit_leaf m c s =
     (case vertex_type m c of
        pin \<Rightarrow> (case visit_pin m c s of
                   Inl e \<Rightarrow> Inl e
                 | Inr (None, s1) \<Rightarrow> Inr (NoPin, s1)
                 | Inr (Some p, s1) \<Rightarrow> Inr (OnePin p, s1))
      | signal \<Rightarrow> (case visit_signal m c s of (p, s1) \<Rightarrow> Inr (OnePin p, s1))
      | _ \<Rightarrow> Inl DispatchError)"

text \<open>
  The first line of \<^verbatim>\<open>generic_visit_block\<close> and the entry of \<^verbatim>\<open>block_context\<close>.
\<close>

definition enter_block :: "nat \<Rightarrow> Bob \<Rightarrow> Bob" where
  "enter_block v s = s\<lparr> all_verticies := all_verticies s @ [v], block_stack := block_stack s @ [v] \<rparr>"

text \<open>
  The recursion of the builder. The first argument bounds the depth of the recursion:
  Python stops a recursion that is too deep with \<^verbatim>\<open>RecursionError\<close>, which is what a
  cycle of \<^verbatim>\<open>part_of\<close> edges leads to.
  \<^item> \<open>generic_visit_block\<close> is \<^verbatim>\<open>Bob.generic_visit_block\<close> (and so \<^verbatim>\<open>visit_component\<close>
    and \<^verbatim>\<open>visit_module\<close>); it returns the address of the new Block.
  \<^item> \<open>wander_blocks\<close> is \<^verbatim>\<open>wander\<close> over the component and module children, which
    \<^verbatim>\<open>visit\<close> sends to \<^verbatim>\<open>visit_component\<close> and \<^verbatim>\<open>visit_module\<close>; no other child is
    ever handed over.
  \<^item> \<open>wander_interface\<close> is \<^verbatim>\<open>Bob.wander_interface\<close>, \<open>wander_pins\<close> its call of
    \<^verbatim>\<open>wander\<close> over the pin, signal and interface children.
  \<^item> \<open>visit_interface\<close> is \<^verbatim>\<open>Bob.visit_interface\<close>.
\<close>

function (sequential) generic_visit_block :: "nat \<Rightarrow> Model \<Rightarrow> nat \<Rightarrow> Bob \<Rightarrow> error + nat \<times> Bob"
  and wander_blocks :: "nat \<Rightarrow> Model \<Rightarrow> nat list \<Rightarrow> Bob \<Rightarrow> error + nat list \<times> Bob"
  and wander_interface :: "nat \<Rightarrow> Model \<Rightarrow> nat \<Rightarrow> Bob \<Rightarrow> error + Pin list \<times> Bob"
  and wander_pins :: "nat \<Rightarrow> Model \<Rightarrow> nat list \<Rightarrow> Bob \<Rightarrow> error + listy_pin list \<times> Bob"
  and visit_interface :: "nat \<Rightarrow> Model \<Rightarrow> nat \<Rightarrow> Bob \<Rightarrow> error + Pin list \<times> Bob"
where
  "generic_visit_block 0 m v s = Inl RecursionError"
| "generic_visit_block (Suc n) m v s =
     (case wander_blocks n m (wander_targets m v mode_in part_of [component, module])
             (enter_block v s) of
        Inl e \<Rightarrow> Inl e
      | Inr (blocks, s2) \<Rightarrow>
          (case wander_interface n m v s2 of
             Inl e \<Rightarrow> Inl e
           | Inr (pins, s3) \<Rightarrow> Inr (finish_block m v blocks pins s3)))"
| "wander_blocks n m [] s = Inr ([], s)"
| "wander_blocks n m (c # cs) s =
     (case (if vertex_type m c = component \<or> vertex_type m c = module
            then generic_visit_block n m c s else Inl DispatchError) of
        Inl e \<Rightarrow> Inl e
      | Inr (b, s1) \<Rightarrow>
          (case wander_blocks n m cs s1 of
             Inl e \<Rightarrow> Inl e
           | Inr (bs, s2) \<Rightarrow> Inr (b # bs, s2)))"
| "wander_interface n m v s =
     (case wander_pins n m (wander_targets m v mode_in part_of [pin, signal, interface]) s of
        Inl e \<Rightarrow> Inl e
      | Inr (listy_pins, s1) \<Rightarrow> Inr (flatten_listy listy_pins, s1))"
| "wander_pins n m [] s = Inr ([], s)"
| "wander_pins n m (c # cs) s =
     (case (if vertex_type m c = interface
            then (case visit_interface n m c s of
                    Inl e \<Rightarrow> Inl e
                  | Inr (ps, s1) \<Rightarrow> Inr (ListPins ps, s1))
            else visit_leaf m c s) of
        Inl e \<Rightarrow> Inl e
      | Inr (r, s1) \<Rightarrow>
          (case wander_pins n m cs s1 of
             Inl e \<Rightarrow> Inl e
           | Inr (rs, s2) \<Rightarrow> Inr (r # rs, s2)))"
| "visit_interface 0 m v s = Inl RecursionError"
| "visit_interface (Suc n) m v s =
     (case wander_interface n m v s of
        Inl e \<Rightarrow> Inl e
      | Inr (pins, s1) \<Rightarrow>
          Inr (map (\<lambda>p. p\<lparr> pin_name := ref m v @ ''-'' @ pin_name p \<rparr>) pins, s1))"
  by pat_completeness auto
termination
  by (relation "measures
        [\<lambda>x. case x of
            Inl (Inl (n, m, v, s)) \<Rightarrow> n
          | Inl (Inr (n, m, cs, s)) \<Rightarrow> n
          | Inr (Inl (n, m, v, s)) \<Rightarrow> n
          | Inr (Inr (Inl (n, m, cs, s))) \<Rightarrow> n
          | Inr (Inr (Inr (n, m, v, s))) \<Rightarrow> n,
         \<lambda>x. case x of
            Inl (Inl (n, m, v, s)) \<Rightarrow> 0
          | Inl (Inr (n, m, cs, s)) \<Rightarrow> 1
          | Inr (Inl (n, m, v, s)) \<Rightarrow> 2
          | Inr (Inr (Inl (n, m, cs, s))) \<Rightarrow> 1
          | Inr (Inr (Inr (n, m, v, s))) \<Rightarrow> 0,
         \<lambda>x. case x of
            Inl (Inl (n, m, v, s)) \<Rightarrow> 0
          | Inl (Inr (n, m, cs, s)) \<Rightarrow> length cs
          | Inr (Inl (n, m, v, s)) \<Rightarrow> 0
          | Inr (Inr (Inl (n, m, cs, s))) \<Rightarrow> length cs
          | Inr (Inr (Inr (n, m, v, s))) \<Rightarrow> 0]") auto

section \<open>Scoping the links\<close>

text \<open>
  The loop of \<^verbatim>\<open>Bob.build\<close> over the \<^verbatim>\<open>connects_to\<close> edges, lines 100 to 139. The
  append goes through the directory to the Block in the store.
\<close>

fun connect :: "Model \<Rightarrow> nat set \<Rightarrow> Edge list \<Rightarrow> Bob \<Rightarrow> error + Bob" where
  "connect m all_indicies [] s = Inr s"
| "connect m all_indicies (connection # connections) s =
     (if edge_source connection \<notin> all_indicies \<or> edge_target connection \<notin> all_indicies
      then connect m all_indicies connections s
      else
        (case resolve_rel_name m [edge_source connection, edge_target connection] of
           Inl e \<Rightarrow> Inl e
         | Inr (lca, name) \<Rightarrow>
             (case relative_mvv_path m lca (edge_source connection) of
                Inl e \<Rightarrow> Inl e
              | Inr rel_source_mvvs \<Rightarrow>
                  (case relative_mvv_path m lca (edge_target connection) of
                     Inl e \<Rightarrow> Inl e
                   | Inr rel_target_mvvs \<Rightarrow>
                       (let link = \<lparr> link_name = name,
                                      link_source = mod_path m rel_source_mvvs,
                                      link_target = mod_path m rel_target_mvvs \<rparr>
                        in case map_of (block_directory_by_path s) (path m lca) of
                             None \<Rightarrow> Inl (KeyError (path m lca))
                           | Some a \<Rightarrow>
                               connect m all_indicies connections
                                 (s\<lparr> heap := (heap s)[a := (heap s ! a)
                                        \<lparr> block_links := block_links (heap s ! a) @ [link] \<rparr>] \<rparr>))))))"

text \<open>
  \<^verbatim>\<open>Bob.build\<close>. The result is the address of the root Block together with the
  builder, whose store holds the tree.
\<close>

definition build :: "nat \<Rightarrow> Model \<Rightarrow> nat \<Rightarrow> error + nat \<times> Bob" where
  "build fuel m main =
     (case generic_visit_block fuel m main Bob_init of
        Inl e \<Rightarrow> Inl e
      | Inr (root, bob) \<Rightarrow>
          (let bob1 = bob\<lparr> heap := (heap bob)[root := (heap bob ! root)
                             \<lparr> block_instance_of := Some (path m main) \<rparr>] \<rparr>;
               connections = filter (\<lambda>e. edge_type e = connects_to) (es m);
               all_indicies = set (all_verticies bob1)
           in case connect m all_indicies connections bob1 of
                Inl e \<Rightarrow> Inl e
              | Inr bob2 \<Rightarrow> Inr (root, bob2)))"

section \<open>Serialization\<close>

text \<open>\<^verbatim>\<open>Pin.to_dict\<close> and \<^verbatim>\<open>Link.to_dict\<close>\<close>

definition pin_to_dict :: "Pin \<Rightarrow> pyval" where
  "pin_to_dict p = PDict [(''name'', PStr (pin_name p)), (''fields'', pin_fields p)]"

definition link_to_dict :: "Link \<Rightarrow> pyval" where
  "link_to_dict l = PDict [(''name'', PStr (link_name l)),
                           (''source'', PStr (link_source l)),
                           (''target'', PStr (link_target l))]"

text \<open>\<^verbatim>\<open>self.instance_of\<close> as a Python value: a string or \<^verbatim>\<open>None\<close>.\<close>

definition optional_str :: "string option \<Rightarrow> pyval" where
  "optional_str x = (case x of None \<Rightarrow> PNone | Some p \<Rightarrow> PStr p)"

text \<open>
  \<^verbatim>\<open>Block.to_dict\<close> on the Block at an address of the store; \<open>to_dicts\<close> is the list
  comprehension over \<^verbatim>\<open>self.blocks\<close>. The first argument bounds the depth of the
  recursion, as in the traversal.
\<close>

fun to_dict :: "nat \<Rightarrow> Block list \<Rightarrow> nat \<Rightarrow> error + pyval"
  and to_dicts :: "nat \<Rightarrow> Block list \<Rightarrow> nat list \<Rightarrow> error + pyval list"
where
  "to_dict 0 h a = Inl RecursionError"
| "to_dict (Suc n) h a =
     (case to_dicts n h (block_blocks (h ! a)) of
        Inl e \<Rightarrow> Inl e
      | Inr ds \<Rightarrow>
          Inr (PDict [(''name'', PStr (block_name (h ! a))),
                      (''type'', PStr (block_type (h ! a))),
                      (''fields'', PDict (block_fields (h ! a))),
                      (''blocks'', PList ds),
                      (''pins'', PList (map pin_to_dict (block_pins (h ! a)))),
                      (''links'', PList (map link_to_dict (block_links (h ! a)))),
                      (''instance_of'', optional_str (block_instance_of (h ! a)))]))"
| "to_dicts n h [] = Inr []"
| "to_dicts n h (c # cs) =
     (case to_dict n h c of
        Inl e \<Rightarrow> Inl e
      | Inr d \<Rightarrow> (case to_dicts n h cs of Inl e \<Rightarrow> Inl e | Inr ds \<Rightarrow> Inr (d # ds)))"

text \<open>
  \<^verbatim>\<open>build_view\<close>, from the root vertex that \<^verbatim>\<open>ModelVertexView.from_path\<close> has found.
\<close>

definition build_view :: "nat \<Rightarrow> Model \<Rightarrow> nat \<Rightarrow> error + pyval" where
  "build_view fuel m root_node =
     (case build fuel m root_node of
        Inl e \<Rightarrow> Inl e
      | Inr (root, bob) \<Rightarrow> to_dict fuel (heap bob) root)"

section \<open>A reading of the collaborators, and two designs\<close>

text \<open>
  Modelled from the spec: the containers of a vertex, innermost first, found along its
  outbound \<^verbatim>\<open>part_of\<close> edges (the glossary's containment tree). The first argument
  bounds the length of the chain.
\<close>

fun containers :: "nat \<Rightarrow> Model \<Rightarrow> nat \<Rightarrow> nat list" where
  "containers 0 m v = []"
| "containers (Suc n) m v =
     (case get_adjacents m v mode_out part_of of
        [] \<Rightarrow> []
      | p # _ \<Rightarrow> p # containers n m p)"

text \<open>
  Modelled from the spec: the least common ancestor of the glossary, "the deepest
  containment-tree vertex that is an ancestor of both endpoints", as the result of
  \<^verbatim>\<open>resolve_rel_name\<close>. The spec leaves the form of the connection name open; it is a
  parameter here.
\<close>

definition spec_resolve_rel_name ::
    "(nat \<Rightarrow> nat \<Rightarrow> string) \<Rightarrow> Model \<Rightarrow> nat list \<Rightarrow> error + nat \<times> string" where
  "spec_resolve_rel_name naming m vs =
     (case vs of
        [a, b] \<Rightarrow>
          (case find (\<lambda>x. x \<in> set (containers (length (es m)) m b))
                     (containers (length (es m)) m a) of
             None \<Rightarrow> Inl (CollaboratorError ''no common ancestor'')
           | Some lca \<Rightarrow> Inr (lca, naming a b))
      | _ \<Rightarrow> Inl (CollaboratorError ''two vertices expected''))"

text \<open>
  Modelled from the spec: \<^verbatim>\<open>relative_mvv_path\<close>, "given an ancestor and a descendant,
  the ordered sequence of vertices on the path between them"; as in the example of
  section 8 (\<^verbatim>\<open>Y.A\<close> relative to \<^verbatim>\<open>X\<close>) it leaves the ancestor out and ends with the
  descendant.
\<close>

definition spec_relative_mvv_path :: "Model \<Rightarrow> nat \<Rightarrow> nat \<Rightarrow> error + nat list" where
  "spec_relative_mvv_path m anc v =
     (if anc \<in> set (containers (length (es m)) m v)
      then Inr (rev (v # takeWhile (\<lambda>x. x \<noteq> anc) (containers (length (es m)) m v)))
      else Inl (CollaboratorError ''not an ancestor''))"

text \<open>
  A model from a table of vertices (type, local name, path, parent path), a list of
  edges (source, type, target) and the data by path, with the collaborators as read
  above; the connection name is written \<^verbatim>\<open>source~target\<close>.
\<close>

definition table_model ::
    "(VertexType \<times> string \<times> string \<times> string) list \<Rightarrow> (nat \<times> EdgeType \<times> nat) list \<Rightarrow>
     (string \<times> (string \<times> pyval) list) list \<Rightarrow> Model" where
  "table_model vt et dt =
     (let m0 = \<lparr> vertex_type = (\<lambda>i. if i < length vt then fst (vt ! i) else file'),
                 ref = (\<lambda>i. if i < length vt then fst (snd (vt ! i)) else []),
                 path = (\<lambda>i. if i < length vt then fst (snd (snd (vt ! i))) else []),
                 parent_path = (\<lambda>i. if i < length vt then snd (snd (snd (vt ! i))) else []),
                 vertex_data = (\<lambda>i. if i < length vt
                                     then (case map_of dt (fst (snd (snd (vt ! i)))) of
                                             None \<Rightarrow> [] | Some d \<Rightarrow> d)
                                     else []),
                 es = map (\<lambda>(a, t, b). \<lparr> edge_source = a, edge_target = b, edge_type = t \<rparr>) et,
                 data = map_of dt,
                 resolve_rel_name = (\<lambda>vs. Inl (CollaboratorError [])),
                 relative_mvv_path = (\<lambda>a v. Inl (CollaboratorError [])) \<rparr>
      in m0\<lparr> resolve_rel_name :=
                spec_resolve_rel_name (\<lambda>a b. path m0 a @ ''~'' @ path m0 b) m0,
              relative_mvv_path := spec_relative_mvv_path m0 \<rparr>)"

text \<open>
  The first design: module \<^verbatim>\<open>M\<close> with components \<^verbatim>\<open>C1\<close> (pins \<^verbatim>\<open>p\<close> and \<^verbatim>\<open>e\<close>,
  signal \<^verbatim>\<open>s\<close>) and \<^verbatim>\<open>C2\<close> (pin \<^verbatim>\<open>q\<close>, interface \<^verbatim>\<open>I\<close> with pin \<^verbatim>\<open>a\<close> and the nested
  interface \<^verbatim>\<open>J\<close> with pin \<^verbatim>\<open>b\<close>); two templates \<^verbatim>\<open>T\<close> and \<^verbatim>\<open>U\<close> outside \<^verbatim>\<open>M\<close>, with
  a pin \<^verbatim>\<open>x\<close> in \<^verbatim>\<open>T\<close>. \<^verbatim>\<open>C1\<close> is an instance of both templates.
\<close>

definition design1 :: Model where
  "design1 = table_model
     [(module, ''M'', ''M'', []),
      (component, ''C1'', ''M.C1'', ''M''),
      (component, ''C2'', ''M.C2'', ''M''),
      (pin, ''p'', ''M.C1.p'', ''M.C1''),
      (signal, ''s'', ''M.C1.s'', ''M.C1''),
      (pin, ''q'', ''M.C2.q'', ''M.C2''),
      (interface, ''I'', ''M.C2.I'', ''M.C2''),
      (pin, ''a'', ''M.C2.I.a'', ''M.C2.I''),
      (interface, ''J'', ''M.C2.I.J'', ''M.C2.I''),
      (pin, ''b'', ''M.C2.I.J.b'', ''M.C2.I.J''),
      (module, ''T'', ''T'', []),
      (module, ''U'', ''U'', []),
      (pin, ''e'', ''M.C1.e'', ''M.C1''),
      (pin, ''x'', ''T.x'', ''T'')]
     [(1, part_of, 0), (2, part_of, 0), (3, part_of, 1), (4, part_of, 1), (12, part_of, 1),
      (5, part_of, 2), (6, part_of, 2), (7, part_of, 6), (8, part_of, 6), (9, part_of, 8),
      (13, part_of, 10),
      (0, instance_of, 10), (1, instance_of, 10), (1, instance_of, 11), (2, instance_of, 11),
      (3, connects_to, 4), (3, connects_to, 5), (12, connects_to, 4), (3, connects_to, 9),
      (5, connects_to, 13), (5, connects_to, 9)]
     [(''M.C1.p'', [(''fields'', PDict [(''net'', PInt 1)])]),
      (''M.C1'', [(''value'', PStr ''10k'')])]"

text \<open>
  The second design: module \<^verbatim>\<open>M\<close> with one interface \<^verbatim>\<open>I\<close> that holds two pins \<^verbatim>\<open>a\<close>
  and \<^verbatim>\<open>b\<close>, connected to each other.
\<close>

definition design2 :: Model where
  "design2 = table_model
     [(module, ''M'', ''M'', []),
      (interface, ''I'', ''M.I'', ''M''),
      (pin, ''a'', ''M.I.a'', ''M.I''),
      (pin, ''b'', ''M.I.b'', ''M.I'')]
     [(1, part_of, 0), (2, part_of, 1), (3, part_of, 1), (2, connects_to, 3)]
     []"

section \<open>The elision test in the words of the specification\<close>

text \<open>The \<^verbatim>\<open>connects_to\<close> edges that touch a vertex, at either end.\<close>

definition connections_of :: "Model \<Rightarrow> nat \<Rightarrow> Edge list" where
  "connections_of m v =
     filter (\<lambda>e. edge_type e = connects_to \<and> (edge_source e = v \<or> edge_target e = v)) (es m)"

text \<open>The endpoint of an edge that is not \<open>v\<close>.\<close>

definition other_endpoint :: "Edge \<Rightarrow> nat \<Rightarrow> nat" where
  "other_endpoint e v = (if edge_source e = v then edge_target e else edge_source e)"

text \<open>
  Section 4.2: the pin has exactly one \<^verbatim>\<open>connects_to\<close> edge, the other endpoint of
  that edge is a signal, and the signal's parent path is the pin's parent path.
\<close>

definition elision_condition :: "Model \<Rightarrow> nat \<Rightarrow> bool" where
  "elision_condition m v =
     (case connections_of m v of
        [e] \<Rightarrow> vertex_type m (other_endpoint e v) = signal \<and>
               parent_path m (other_endpoint e v) = parent_path m v
      | _ \<Rightarrow> False)"

section \<open>Predicates on the builder's state\<close>

text \<open>
  The visit of a pin, a signal or an interface makes no Block: it leaves the store,
  the directory, the block stack and the log as they are.
\<close>

definition same_blocks :: "Bob \<Rightarrow> Bob \<Rightarrow> bool" where
  "same_blocks s s' \<longleftrightarrow>
     heap s' = heap s \<and> block_directory_by_path s' = block_directory_by_path s \<and>
     block_stack s' = block_stack s \<and> warnings s' = warnings s"

text \<open>
  Every address in the directory is an address of the store, and every Block of the
  store was made after its children.
\<close>

definition store_ok :: "Bob \<Rightarrow> bool" where
  "store_ok s \<longleftrightarrow>
     (\<forall>(p, a) \<in> set (block_directory_by_path s). a < length (heap s)) \<and>
     (\<forall>a \<in> {0..<length (heap s)}. \<forall>c \<in> set (block_blocks (heap s ! a)). c < a)"

text \<open>No Block of the store has a link yet.\<close>

definition no_links :: "Bob \<Rightarrow> bool" where
  "no_links s \<longleftrightarrow> (\<forall>b \<in> set (heap s). block_links b = [])"

section \<open>Link scoping in the words of the specification\<close>

text \<open>An edge is eligible when both its endpoints are in the registry of visited vertices.\<close>

definition eligible :: "nat set \<Rightarrow> Edge \<Rightarrow> bool" where
  "eligible all_indicies e \<longleftrightarrow> edge_source e \<in> all_indicies \<and> edge_target e \<in> all_indicies"

text \<open>
  Section 4.3: the path of the least common ancestor of the two endpoints, and the Link
  whose name is the connection name from the resolution and whose source and target are
  the rendered relative paths of the endpoints.
\<close>

definition scoped_link :: "Model \<Rightarrow> Edge \<Rightarrow> error + string \<times> Link" where
  "scoped_link m e =
     (case resolve_rel_name m [edge_source e, edge_target e] of
        Inl x \<Rightarrow> Inl x
      | Inr (lca, name) \<Rightarrow>
          (case relative_mvv_path m lca (edge_source e) of
             Inl x \<Rightarrow> Inl x
           | Inr rel_source \<Rightarrow>
               (case relative_mvv_path m lca (edge_target e) of
                  Inl x \<Rightarrow> Inl x
                | Inr rel_target \<Rightarrow>
                    Inr (path m lca, \<lparr> link_name = name,
                                       link_source = mod_path m rel_source,
                                       link_target = mod_path m rel_target \<rparr>))))"

text \<open>
  The Links that the edges of a list owe to the Block at address \<open>a\<close>: one for each
  eligible edge whose owner path the directory sends to \<open>a\<close>, in the order of the edges.
\<close>

definition links_at :: "Model \<Rightarrow> nat set \<Rightarrow> (string \<times> nat) list \<Rightarrow> nat \<Rightarrow> Edge list \<Rightarrow> Link list" where
  "links_at m all_indicies dir a cs =
     concat (map (\<lambda>e. case scoped_link m e of
                         Inl x \<Rightarrow> []
                       | Inr (p, l) \<Rightarrow>
                           if eligible all_indicies e \<and> map_of dir p = Some a then [l] else [])
                 cs)"

section \<open>The two designs, built\<close>

text \<open>The builder after the traversal of the first design from \<^verbatim>\<open>M\<close>.\<close>

definition design1_traversed :: Bob where
  "design1_traversed =
     \<lparr> all_verticies = [0, 1, 3, 4, 12, 2, 5, 7, 9],
       block_stack = [],
       block_directory_by_path = [(''M.C1'', 0), (''M.C2'', 1), (''M'', 2)],
       pin_directory_by_vid =
         [(3, \<lparr> pin_name = ''p'', pin_fields = PDict [(''net'', PInt 1)] \<rparr>),
          (4, \<lparr> pin_name = ''s'', pin_fields = PDict [] \<rparr>),
          (5, \<lparr> pin_name = ''q'', pin_fields = PDict [] \<rparr>),
          (7, \<lparr> pin_name = ''a'', pin_fields = PDict [] \<rparr>),
          (9, \<lparr> pin_name = ''b'', pin_fields = PDict [] \<rparr>)],
       heap =
         [\<lparr> block_name = ''C1'', block_type = ''component'',
             block_fields = [(''value'', PStr ''10k'')], block_blocks = [],
             block_pins = [\<lparr> pin_name = ''p'', pin_fields = PDict [(''net'', PInt 1)] \<rparr>,
                           \<lparr> pin_name = ''s'', pin_fields = PDict [] \<rparr>],
             block_links = [], block_instance_of = Some ''T'', block_source = 1 \<rparr>,
          \<lparr> block_name = ''C2'', block_type = ''component'',
             block_fields = [], block_blocks = [],
             block_pins = [\<lparr> pin_name = ''q'', pin_fields = PDict [] \<rparr>,
                           \<lparr> pin_name = ''I-a'', pin_fields = PDict [] \<rparr>,
                           \<lparr> pin_name = ''I-J-b'', pin_fields = PDict [] \<rparr>],
             block_links = [], block_instance_of = Some ''U'', block_source = 2 \<rparr>,
          \<lparr> block_name = ''M'', block_type = ''module'',
             block_fields = [], block_blocks = [0, 1], block_pins = [],
             block_links = [], block_instance_of = Some ''T'', block_source = 0 \<rparr>],
       warnings = [''Block M.C1 is an instance_of multiple things''] \<rparr>"

text \<open>The links of the three Blocks of the first design after \<^verbatim>\<open>build\<close>.\<close>

definition design1_links :: "Link list list" where
  "design1_links =
     [[\<lparr> link_name = ''M.C1.p~M.C1.s'', link_source = ''p'', link_target = ''s'' \<rparr>,
       \<lparr> link_name = ''M.C1.e~M.C1.s'', link_source = ''e'', link_target = ''s'' \<rparr>],
      [\<lparr> link_name = ''M.C2.q~M.C2.I.J.b'', link_source = ''q'', link_target = ''.I-J-b'' \<rparr>],
      [\<lparr> link_name = ''M.C1.p~M.C2.q'', link_source = ''C1.p'', link_target = ''C2.q'' \<rparr>,
       \<lparr> link_name = ''M.C1.p~M.C2.I.J.b'', link_source = ''C1.p'',
          link_target = ''C2.I-J-b'' \<rparr>]]"

text \<open>The builder that \<^verbatim>\<open>build\<close> returns for the first design.\<close>

definition design1_built :: Bob where
  "design1_built =
     design1_traversed
       \<lparr> heap := [(heap design1_traversed ! 0)\<lparr> block_links := design1_links ! 0 \<rparr>,
                  (heap design1_traversed ! 1)\<lparr> block_links := design1_links ! 1 \<rparr>,
                  (heap design1_traversed ! 2)\<lparr> block_links := design1_links ! 2,
                                                 block_instance_of := Some ''M'' \<rparr>] \<rparr>"

text \<open>The builder after the traversal of the second design from \<^verbatim>\<open>M\<close>.\<close>

definition design2_traversed :: Bob where
  "design2_traversed =
     \<lparr> all_verticies = [0, 2, 3],
       block_stack = [],
       block_directory_by_path = [(''M'', 0)],
       pin_directory_by_vid =
         [(2, \<lparr> pin_name = ''a'', pin_fields = PDict [] \<rparr>),
          (3, \<lparr> pin_name = ''b'', pin_fields = PDict [] \<rparr>)],
       heap =
         [\<lparr> block_name = ''M'', block_type = ''module'',
             block_fields = [], block_blocks = [],
             block_pins = [\<lparr> pin_name = ''I-a'', pin_fields = PDict [] \<rparr>,
                           \<lparr> pin_name = ''I-b'', pin_fields = PDict [] \<rparr>],
             block_links = [], block_instance_of = None, block_source = 0 \<rparr>],
       warnings = [] \<rparr>"

section \<open>The outcome of the link loop in the words of the specification\<close>


text \<open>
  The store in which every Block has got, after the links it had, the Links that the
  edges of a list owe to its address.
\<close>

definition scoped_store ::
    "Model \<Rightarrow> nat set \<Rightarrow> (string \<times> nat) list \<Rightarrow> Edge list \<Rightarrow> Block list \<Rightarrow> Block list" where
  "scoped_store m all_indicies dir cs h =
     map (\<lambda>a. (h ! a)\<lparr> block_links := block_links (h ! a) @ links_at m all_indicies dir a cs \<rparr>)
         [0..<length h]"

section \<open>The pins of a container in the words of the specification\<close>

text \<open>The Pin of a pin or signal vertex: its local name, and the fields of its data.\<close>

definition pin_of :: "Model \<Rightarrow> nat \<Rightarrow> Pin" where
  "pin_of m v =
     \<lparr> pin_name = ref m v,
       pin_fields = dict_get (case data m (path m v) of None \<Rightarrow> [] | Some d \<Rightarrow> d)
                      ''fields'' (PDict []) \<rparr>"

text \<open>
  Sections 4.1 and 4.2, as a function of the graph alone. \<open>flat_pins\<close> is the pin list
  of a container: what its pin, signal and interface children give, in their order
  (\<open>flat_pins_of\<close>). A signal gives its Pin; a pin gives its Pin unless the elision test
  holds, and nothing then; an interface gives the pin list of its own children, each
  Pin renamed to the interface's local name, a hyphen, and the name it had
  (\<open>interface_pins\<close>). The first argument bounds the nesting of the interfaces; the
  result is \<open>None\<close> when they are nested deeper.
\<close>

function (sequential) flat_pins :: "nat \<Rightarrow> Model \<Rightarrow> nat \<Rightarrow> Pin list option"
  and flat_pins_of :: "nat \<Rightarrow> Model \<Rightarrow> nat list \<Rightarrow> Pin list option"
  and interface_pins :: "nat \<Rightarrow> Model \<Rightarrow> nat \<Rightarrow> Pin list option"
where
  "flat_pins n m v =
     flat_pins_of n m (wander_targets m v mode_in part_of [pin, signal, interface])"
| "flat_pins_of n m [] = Some []"
| "flat_pins_of n m (c # cs) =
     (case (if vertex_type m c = interface then interface_pins n m c
            else if vertex_type m c = pin \<and> elision_condition m c then Some []
            else Some [pin_of m c]) of
        None \<Rightarrow> None
      | Some ps \<Rightarrow>
          (case flat_pins_of n m cs of
             None \<Rightarrow> None
           | Some rest \<Rightarrow> Some (ps @ rest)))"
| "interface_pins 0 m v = None"
| "interface_pins (Suc n) m v =
     (case flat_pins n m v of
        None \<Rightarrow> None
      | Some ps \<Rightarrow> Some (map (\<lambda>p. p\<lparr> pin_name := ref m v @ ''-'' @ pin_name p \<rparr>) ps))"
  by pat_completeness auto
termination
  by (relation "measures
        [\<lambda>x. case x of
            Inl (n, m, v) \<Rightarrow> n
          | Inr (Inl (n, m, cs)) \<Rightarrow> n
          | Inr (Inr (n, m, v)) \<Rightarrow> n,
         \<lambda>x. case x of
            Inl (n, m, v) \<Rightarrow> 2
          | Inr (Inl (n, m, cs)) \<Rightarrow> 1
          | Inr (Inr (n, m, v)) \<Rightarrow> 0,
         \<lambda>x. case x of
            Inl (n, m, v) \<Rightarrow> 0
          | Inr (Inl (n, m, cs)) \<Rightarrow> length cs
          | Inr (Inr (n, m, v)) \<Rightarrow> 0]") auto

section \<open>The second design, built from its interface\<close>

text \<open>The builder that \<^verbatim>\<open>build\<close> returns for the second design with \<^verbatim>\<open>M.I\<close> as the root.\<close>

definition design2_from_interface :: Bob where
  "design2_from_interface =
     \<lparr> all_verticies = [1, 2, 3],
       block_stack = [],
       block_directory_by_path = [(''M.I'', 0)],
       pin_directory_by_vid =
         [(2, \<lparr> pin_name = ''a'', pin_fields = PDict [] \<rparr>),
          (3, \<lparr> pin_name = ''b'', pin_fields = PDict [] \<rparr>)],
       heap =
         [\<lparr> block_name = ''I'', block_type = ''interface'',
             block_fields = [], block_blocks = [],
             block_pins = [\<lparr> pin_name = ''a'', pin_fields = PDict [] \<rparr>,
                           \<lparr> pin_name = ''b'', pin_fields = PDict [] \<rparr>],
             block_links = [\<lparr> link_name = ''M.I.a~M.I.b'', link_source = ''a'',
                               link_target = ''b'' \<rparr>],
             block_instance_of = Some ''M.I'', block_source = 1 \<rparr>],
       warnings = [] \<rparr>"

section \<open>A third design\<close>

text \<open>
  Module \<^verbatim>\<open>M\<close> with one component \<^verbatim>\<open>C\<close>, which has a pin \<^verbatim>\<open>p\<close> and is an instance of
  nothing.
\<close>

definition design3 :: Model where
  "design3 = table_model
     [(module, ''M'', ''M'', []),
      (component, ''C'', ''M.C'', ''M''),
      (pin, ''p'', ''M.C.p'', ''M.C'')]
     [(1, part_of, 0), (2, part_of, 1)]
     []"

text \<open>The builder that \<^verbatim>\<open>build\<close> returns for the third design.\<close>

definition design3_built :: Bob where
  "design3_built =
     \<lparr> all_verticies = [0, 1, 2],
       block_stack = [],
       block_directory_by_path = [(''M.C'', 0), (''M'', 1)],
       pin_directory_by_vid = [(2, \<lparr> pin_name = ''p'', pin_fields = PDict [] \<rparr>)],
       heap =
         [\<lparr> block_name = ''C'', block_type = ''component'',
             block_fields = [], block_blocks = [],
             block_pins = [\<lparr> pin_name = ''p'', pin_fields = PDict [] \<rparr>],
             block_links = [], block_instance_of = None, block_source = 1 \<rparr>,
          \<lparr> block_name = ''M'', block_type = ''module'',
             block_fields = [], block_blocks = [0], block_pins = [],
             block_links = [], block_instance_of = Some ''M'', block_source = 0 \<rparr>],
       warnings = [] \<rparr>"

section \<open>Properties\<close>

subsection \<open>Rendering a relative path\<close>

declare mod_path_loop.simps [simp del]

lemma mod_path_loop_plain:
  "\<forall>j. i \<le> j \<and> j < length xs \<longrightarrow> vertex_type m (xs ! j) \<noteq> interface \<Longrightarrow>
   mod_path_loop m xs i = join ''.'' (map (ref m) xs)"
proof (induction m xs i rule: mod_path_loop.induct)
  case (1 m mvv_path i)
  show ?case
  proof (cases "i < length mvv_path")
    case True
    with "1.prems" have ni: "vertex_type m (mvv_path ! i) \<noteq> interface" by simp
    have "mod_path_loop m mvv_path (Suc i) = join ''.'' (map (ref m) mvv_path)"
      using "1.IH" [OF True ni] "1.prems" by simp
    with True ni show ?thesis by (subst mod_path_loop.simps) simp
  next
    case False
    then show ?thesis by (subst mod_path_loop.simps) simp
  qed
qed

lemma mod_path_loop_split:
  "i \<le> k \<Longrightarrow> k < length xs \<Longrightarrow> vertex_type m (xs ! k) = interface \<Longrightarrow>
   \<forall>j. i \<le> j \<and> j < k \<longrightarrow> vertex_type m (xs ! j) \<noteq> interface \<Longrightarrow>
   mod_path_loop m xs i =
     join ''.'' (map (ref m) (take k xs)) @ ''.'' @ join ''-'' (map (ref m) (drop k xs))"
proof (induction m xs i rule: mod_path_loop.induct)
  case (1 m mvv_path i)
  from "1.prems" have lt: "i < length mvv_path" by simp
  show ?case
  proof (cases "i = k")
    case True
    with "1.prems" lt show ?thesis by (subst mod_path_loop.simps) (simp add: Let_def)
  next
    case False
    with "1.prems" have ik: "i < k" by simp
    with "1.prems" have ni: "vertex_type m (mvv_path ! i) \<noteq> interface" by simp
    have "mod_path_loop m mvv_path (Suc i) =
            join ''.'' (map (ref m) (take k mvv_path)) @ ''.'' @
            join ''-'' (map (ref m) (drop k mvv_path))"
      using "1.IH" [OF lt ni] "1.prems" ik by simp
    with lt ni show ?thesis by (subst mod_path_loop.simps) simp
  qed
qed

text \<open>
  C5. A relative path with no interface in it is rendered as its local names joined by
  dots. A relative path whose first interface is \<open>i\<close>, after the vertices \<open>pre\<close> and before
  the vertices \<open>post\<close>, is rendered as the names of \<open>pre\<close> joined by dots, one dot, and
  the names of \<open>i\<close> and \<open>post\<close> joined by hyphens. (When \<open>pre\<close> is empty the first half
  is the empty string, and the rendering starts with the dot.)
\<close>

theorem mod_path_dual_separator:
  "((\<forall>x \<in> set mvv_path. vertex_type m x \<noteq> interface) \<longrightarrow>
      mod_path m mvv_path = join ''.'' (map (ref m) mvv_path)) \<and>
   ((\<forall>x \<in> set pre. vertex_type m x \<noteq> interface) \<and> vertex_type m i = interface \<longrightarrow>
      mod_path m (pre @ i # post) =
        join ''.'' (map (ref m) pre) @ ''.'' @ join ''-'' (map (ref m) (i # post)))"
proof (intro conjI impI)
  assume "\<forall>x \<in> set mvv_path. vertex_type m x \<noteq> interface"
  then have "\<forall>j. 0 \<le> j \<and> j < length mvv_path \<longrightarrow> vertex_type m (mvv_path ! j) \<noteq> interface"
    by simp
  then show "mod_path m mvv_path = join ''.'' (map (ref m) mvv_path)"
    unfolding mod_path_def by (rule mod_path_loop_plain)
next
  assume a: "(\<forall>x \<in> set pre. vertex_type m x \<noteq> interface) \<and> vertex_type m i = interface"
  let ?xs = "pre @ i # post"
  have "mod_path_loop m ?xs 0 =
          join ''.'' (map (ref m) (take (length pre) ?xs)) @ ''.'' @
          join ''-'' (map (ref m) (drop (length pre) ?xs))"
  proof (rule mod_path_loop_split)
    show "vertex_type m (?xs ! length pre) = interface" using a by simp
    show "\<forall>j. 0 \<le> j \<and> j < length pre \<longrightarrow> vertex_type m (?xs ! j) \<noteq> interface"
      using a by (simp add: nth_append)
  qed simp_all
  then show "mod_path m ?xs =
        join ''.'' (map (ref m) pre) @ ''.'' @ join ''-'' (map (ref m) (i # post))"
    by (simp add: mod_path_def)
qed

text \<open>
  In the first design: \<^verbatim>\<open>C1.p\<close> has no interface; \<^verbatim>\<open>C2.I.J.b\<close> crosses the interface
  \<^verbatim>\<open>I\<close> after one block; \<^verbatim>\<open>I.J.b\<close> starts with it.
\<close>

theorem mod_path_dual_separator_witness:
  "mod_path design1 [1, 3] = ''C1.p'' \<and>
   mod_path design1 [2, 6, 8, 9] = ''C2.I-J-b'' \<and>
   mod_path design1 [6, 8, 9] = ''.I-J-b''"
proof -
  have plain: "\<forall>x \<in> set [1, 3]. vertex_type design1 x \<noteq> interface"
    by code_simp
  have crossing: "(\<forall>x \<in> set [2]. vertex_type design1 x \<noteq> interface) \<and>
      vertex_type design1 6 = interface"
    by code_simp
  have leading: "(\<forall>x \<in> set []. vertex_type design1 x \<noteq> interface) \<and>
      vertex_type design1 6 = interface"
    by code_simp
  have "mod_path design1 [1, 3] = join ''.'' (map (ref design1) [1, 3])"
    using mod_path_dual_separator [of "[1, 3]" design1] plain by blast
  moreover have "join ''.'' (map (ref design1) [1, 3]) = ''C1.p''"
    by code_simp
  moreover have "mod_path design1 ([2] @ 6 # [8, 9]) =
      join ''.'' (map (ref design1) [2]) @ ''.'' @ join ''-'' (map (ref design1) (6 # [8, 9]))"
    using mod_path_dual_separator [of _ design1 "[2]" 6 "[8, 9]"] crossing by blast
  moreover have "join ''.'' (map (ref design1) [2]) @ ''.'' @
      join ''-'' (map (ref design1) (6 # [8, 9])) = ''C2.I-J-b''"
    by code_simp
  moreover have "mod_path design1 ([] @ 6 # [8, 9]) =
      join ''.'' (map (ref design1) []) @ ''.'' @ join ''-'' (map (ref design1) (6 # [8, 9]))"
    using mod_path_dual_separator [of _ design1 "[]" 6 "[8, 9]"] leading by blast
  moreover have "join ''.'' (map (ref design1) []) @ ''.'' @
      join ''-'' (map (ref design1) (6 # [8, 9])) = ''.I-J-b''"
    by code_simp
  ultimately show ?thesis by simp
qed

subsection \<open>Pin elision\<close>

lemma filter_cover_length:
  "\<forall>x \<in> set xs. P x \<or> Q x \<Longrightarrow> length xs \<le> length (filter P xs) + length (filter Q xs)"
  by (induction xs) auto

lemma get_edges_in_connections_of:
  "get_edges m v mode_in connects_to = filter (\<lambda>e. edge_target e = v) (connections_of m v)"
  by (auto simp: get_edges_def connections_of_def intro: filter_cong)

lemma get_edges_out_connections_of:
  "get_edges m v mode_out connects_to = filter (\<lambda>e. edge_source e = v) (connections_of m v)"
  by (auto simp: get_edges_def connections_of_def intro: filter_cong)

lemma connections_of_touch:
  "\<forall>e \<in> set (connections_of m v). edge_target e = v \<or> edge_source e = v"
  by (auto simp: connections_of_def)

lemma connections_count:
  "length (connections_of m v) \<le>
     length (get_edges m v mode_in connects_to) + length (get_edges m v mode_out connects_to)"
  unfolding get_edges_in_connections_of get_edges_out_connections_of
  by (rule filter_cover_length) (rule connections_of_touch)

lemma visit_pin_result:
  assumes "vertex_type m v = pin"
  shows "visit_pin m v s =
     (if elision_condition m v
      then Inr (None, s\<lparr> all_verticies := all_verticies s @ [v] \<rparr>)
      else Inr (Some (fst (generic_visit_pin m v (s\<lparr> all_verticies := all_verticies s @ [v] \<rparr>))),
                snd (generic_visit_pin m v (s\<lparr> all_verticies := all_verticies s @ [v] \<rparr>))))"
proof (cases "connections_of m v")
  case Nil
  then show ?thesis
    by (simp add: visit_pin_def elision_condition_def get_edges_in_connections_of
        get_edges_out_connections_of split: prod.splits)
next
  case (Cons e rest)
  show ?thesis
  proof (cases rest)
    case Nil
    with Cons have one: "connections_of m v = [e]" by simp
    have touch: "edge_target e = v \<or> edge_source e = v"
      using connections_of_touch [of m v] one by simp
    show ?thesis
      using touch assms
      by (auto simp: visit_pin_def elision_condition_def get_edges_in_connections_of
          get_edges_out_connections_of one other_endpoint_def Let_def split: prod.splits)
  next
    case (Cons e' rest')
    with \<open>connections_of m v = e # rest\<close> have "2 \<le> length (connections_of m v)" by simp
    with connections_count [of m v]
    have "length (get_edges m v mode_in connects_to) +
          length (get_edges m v mode_out connects_to) \<noteq> 1" by simp
    moreover have "\<not> elision_condition m v"
      using Cons \<open>connections_of m v = e # rest\<close> by (simp add: elision_condition_def)
    ultimately show ?thesis
      by (simp add: visit_pin_def Let_def split: prod.splits)
  qed
qed



subsection \<open>The traversal and the store\<close>

lemma visit_leaf_same_blocks:
  "visit_leaf m c s = Inr (r, s') \<Longrightarrow> same_blocks s s'"
  by (auto simp: visit_leaf_def visit_pin_def visit_signal_def generic_visit_pin_def
      same_blocks_def Let_def
      split: VertexType.splits sum.splits option.splits if_splits prod.splits)

lemma same_blocks_trans: "same_blocks s s1 \<Longrightarrow> same_blocks s1 s2 \<Longrightarrow> same_blocks s s2"
  by (simp add: same_blocks_def)

lemma same_blocks_store_ok: "same_blocks s s' \<Longrightarrow> store_ok s \<Longrightarrow> store_ok s'"
  by (simp add: same_blocks_def store_ok_def)

lemma same_blocks_no_links: "same_blocks s s' \<Longrightarrow> no_links s \<Longrightarrow> no_links s'"
  by (simp add: same_blocks_def no_links_def)

lemma enter_block_store [simp]:
  "heap (enter_block v s) = heap s"
  "block_directory_by_path (enter_block v s) = block_directory_by_path s"
  "warnings (enter_block v s) = warnings s"
  "all_verticies (enter_block v s) = all_verticies s @ [v]"
  by (simp_all add: enter_block_def)

lemma enter_block_ok [simp]:
  "store_ok (enter_block v s) = store_ok s" "no_links (enter_block v s) = no_links s"
  by (simp_all add: store_ok_def no_links_def)

lemma set_update_subset: "set (AList.update k v al) \<subseteq> insert (k, v) (set al)"
  by (induction al) auto

lemma finish_block_heap:
  "finish_block m v blocks pins s = (a, s') \<Longrightarrow>
   a = length (heap s) \<and> (\<exists>b. heap s' = heap s @ [b] \<and> block_links b = [] \<and>
     block_blocks b = blocks \<and> block_pins b = pins)"
  by (auto simp: finish_block_def Let_def)

lemma finish_block_store_ok:
  assumes fin: "finish_block m v blocks pins s = (a, s')"
    and ok: "store_ok s"
    and kids: "\<forall>b \<in> set blocks. b < length (heap s)"
  shows "store_ok s'"
proof -
  from finish_block_heap [OF fin] obtain b where
    a: "a = length (heap s)" and h: "heap s' = heap s @ [b]" and bb: "block_blocks b = blocks"
    by blast
  have d: "block_directory_by_path s' = AList.update (path m v) a (block_directory_by_path s)"
    using fin by (auto simp: finish_block_def Let_def)
  have "\<forall>(p, x) \<in> set (block_directory_by_path s'). x < length (heap s')"
  proof (clarify)
    fix p x assume "(p, x) \<in> set (block_directory_by_path s')"
    with d set_update_subset [of "path m v" a "block_directory_by_path s"]
    have "(p, x) = (path m v, a) \<or> (p, x) \<in> set (block_directory_by_path s)" by auto
    then show "x < length (heap s')"
      using ok a h by (auto simp: store_ok_def)
  qed
  moreover have "\<forall>x \<in> {0..<length (heap s')}. \<forall>c \<in> set (block_blocks (heap s' ! x)). c < x"
  proof (intro ballI)
    fix x c assume x: "x \<in> {0..<length (heap s')}" and c: "c \<in> set (block_blocks (heap s' ! x))"
    show "c < x"
    proof (cases "x < length (heap s)")
      case True
      with c h have "c \<in> set (block_blocks (heap s ! x))" by (simp add: nth_append)
      with ok True show ?thesis by (auto simp: store_ok_def)
    next
      case False
      with x h have "x = length (heap s)" by simp
      with c h bb kids show ?thesis by simp
    qed
  qed
  ultimately show ?thesis by (simp add: store_ok_def)
qed

lemma finish_block_no_links:
  "finish_block m v blocks pins s = (a, s') \<Longrightarrow> no_links s \<Longrightarrow> no_links s'"
  by (auto dest!: finish_block_heap simp: no_links_def)

text \<open>
  What a visit does to the store: a block visit returns the last address of the store,
  which is new; the visits of the children return addresses of the store; a visit that
  gathers pins changes neither the store nor the directory.
\<close>

lemma traversal_store:
  shows "\<forall>a s'. generic_visit_block n1 m1 v1 s1 = Inr (a, s') \<longrightarrow>
           Suc a = length (heap s') \<and> length (heap s1) \<le> a \<and>
           (store_ok s1 \<longrightarrow> store_ok s') \<and> (no_links s1 \<longrightarrow> no_links s')"
    and "\<forall>bs s'. wander_blocks n2 m2 cs2 s2 = Inr (bs, s') \<longrightarrow>
           length (heap s2) \<le> length (heap s') \<and> (\<forall>b \<in> set bs. b < length (heap s')) \<and>
           (store_ok s2 \<longrightarrow> store_ok s') \<and> (no_links s2 \<longrightarrow> no_links s')"
    and "\<forall>r s'. wander_interface n3 m3 v3 s3 = Inr (r, s') \<longrightarrow> same_blocks s3 s'"
    and "\<forall>r s'. wander_pins n4 m4 cs4 s4 = Inr (r, s') \<longrightarrow> same_blocks s4 s'"
    and "\<forall>r s'. visit_interface n5 m5 v5 s5 = Inr (r, s') \<longrightarrow> same_blocks s5 s'"
proof (induction n1 m1 v1 s1 and n2 m2 cs2 s2 and n3 m3 v3 s3 and n4 m4 cs4 s4 and n5 m5 v5 s5
    rule: generic_visit_block_wander_blocks_wander_interface_wander_pins_visit_interface.induct)
  case (2 n m v s)
  show ?case
  proof (intro allI impI)
    fix a s'
    assume run: "generic_visit_block (Suc n) m v s = Inr (a, s')"
    let ?cs = "wander_targets m v mode_in part_of [component, module]"
    from run obtain blocks s2 pins s3 where
      kids: "wander_blocks n m ?cs (enter_block v s) = Inr (blocks, s2)" and
      gather: "wander_interface n m v s2 = Inr (pins, s3)" and
      fin: "finish_block m v blocks pins s3 = (a, s')"
      by (auto split: sum.splits)
    from "2.IH"(1) kids have k:
      "length (heap s) \<le> length (heap s2)" "\<forall>b \<in> set blocks. b < length (heap s2)"
      "store_ok s \<longrightarrow> store_ok s2" "no_links s \<longrightarrow> no_links s2"
      by auto
    from "2.IH"(2) [OF kids refl] gather have same: "same_blocks s2 s3" by blast
    then have h3: "heap s3 = heap s2" by (simp add: same_blocks_def)
    from finish_block_heap [OF fin] have a: "a = length (heap s3)" "Suc a = length (heap s')"
      by auto
    show "Suc a = length (heap s') \<and> length (heap s) \<le> a \<and>
           (store_ok s \<longrightarrow> store_ok s') \<and> (no_links s \<longrightarrow> no_links s')"
      using a k h3 same
      by (auto intro: finish_block_store_ok [OF fin] finish_block_no_links [OF fin]
          same_blocks_store_ok same_blocks_no_links)
  qed
next
  case (4 n m c cs s)
  show ?case
  proof (intro allI impI)
    fix bs s'
    assume run: "wander_blocks n m (c # cs) s = Inr (bs, s')"
    let ?first = "if vertex_type m c = component \<or> vertex_type m c = module
            then generic_visit_block n m c s else Inl DispatchError"
    from run obtain b s1 rest where
      first: "?first = Inr (b, s1)" and more: "wander_blocks n m cs s1 = Inr (rest, s')" and
      bs: "bs = b # rest"
      by (auto split: sum.splits)
    from first have ty: "vertex_type m c = component \<or> vertex_type m c = module"
      and visit: "generic_visit_block n m c s = Inr (b, s1)"
      by (auto split: if_splits)
    from "4.IH"(1) [OF ty] visit have f:
      "Suc b = length (heap s1)" "length (heap s) \<le> b"
      "store_ok s \<longrightarrow> store_ok s1" "no_links s \<longrightarrow> no_links s1"
      by auto
    from "4.IH"(2) [OF first refl] more have r:
      "length (heap s1) \<le> length (heap s')" "\<forall>x \<in> set rest. x < length (heap s')"
      "store_ok s1 \<longrightarrow> store_ok s'" "no_links s1 \<longrightarrow> no_links s'"
      by auto
    show "length (heap s) \<le> length (heap s') \<and> (\<forall>b \<in> set bs. b < length (heap s')) \<and>
           (store_ok s \<longrightarrow> store_ok s') \<and> (no_links s \<longrightarrow> no_links s')"
      using f r bs by auto
  qed
next
  case (5 n m v s)
  then show ?case by (auto split: sum.splits)
next
  case (6 n m s)
  then show ?case by (simp add: same_blocks_def)
next
  case (7 n m c cs s)
  show ?case
  proof (intro allI impI)
    fix r s'
    assume run: "wander_pins n m (c # cs) s = Inr (r, s')"
    let ?first = "if vertex_type m c = interface
            then (case visit_interface n m c s of
                    Inl e \<Rightarrow> Inl e
                  | Inr (ps, s1) \<Rightarrow> Inr (ListPins ps, s1))
            else visit_leaf m c s"
    from run obtain x s1 rs where
      first: "?first = Inr (x, s1)" and rest: "wander_pins n m cs s1 = Inr (rs, s')"
      by (auto split: sum.splits)
    have "same_blocks s s1"
    proof (cases "vertex_type m c = interface")
      case True
      with first obtain ps where "visit_interface n m c s = Inr (ps, s1)"
        by (auto split: sum.splits)
      with "7.IH"(1) [OF True] show ?thesis by blast
    next
      case False
      with first show ?thesis by (auto dest: visit_leaf_same_blocks)
    qed
    moreover have "same_blocks s1 s'"
      using "7.IH"(2) [OF first refl] rest by blast
    ultimately show "same_blocks s s'" by (rule same_blocks_trans)
  qed
next
  case (9 n m v s)
  then show ?case by (auto split: sum.splits)
qed simp_all

lemma generic_visit_block_store:
  "generic_visit_block n m v s = Inr (a, s') \<Longrightarrow>
   Suc a = length (heap s') \<and> length (heap s) \<le> a \<and>
   (store_ok s \<longrightarrow> store_ok s') \<and> (no_links s \<longrightarrow> no_links s')"
  using traversal_store(1) by blast

lemma wander_interface_same_blocks:
  "wander_interface n m v s = Inr (r, s') \<Longrightarrow> same_blocks s s'"
  using traversal_store(3) by blast

lemma visit_interface_same_blocks:
  "visit_interface n m v s = Inr (r, s') \<Longrightarrow> same_blocks s s'"
  using traversal_store(5) by blast
subsection \<open>The loop over the connections\<close>

lemma connect_skip:
  "\<not> eligible all_indicies c \<Longrightarrow>
   connect m all_indicies (c # cs) s = connect m all_indicies cs s"
  by (auto simp: eligible_def)

declare connect.simps(2) [simp del]

lemma connect_raise:
  "eligible all_indicies c \<Longrightarrow> scoped_link m c = Inl x \<Longrightarrow>
   connect m all_indicies (c # cs) s = Inl x"
  by (auto simp: connect.simps(2) eligible_def scoped_link_def split: sum.splits prod.splits)

lemma connect_key_error:
  "eligible all_indicies c \<Longrightarrow> scoped_link m c = Inr (p, l) \<Longrightarrow>
   map_of (block_directory_by_path s) p = None \<Longrightarrow>
   connect m all_indicies (c # cs) s = Inl (KeyError p)"
  by (auto simp: connect.simps(2) eligible_def scoped_link_def split: sum.splits prod.splits)

lemma connect_append:
  "eligible all_indicies c \<Longrightarrow> scoped_link m c = Inr (p, l) \<Longrightarrow>
   map_of (block_directory_by_path s) p = Some a \<Longrightarrow>
   connect m all_indicies (c # cs) s =
     connect m all_indicies cs
       (s\<lparr> heap := (heap s)[a := (heap s ! a)\<lparr> block_links := block_links (heap s ! a) @ [l] \<rparr>] \<rparr>)"
  by (auto simp: connect.simps(2) eligible_def scoped_link_def Let_def
      split: sum.splits prod.splits)

lemma links_at_Nil [simp]: "links_at m all_indicies dir a [] = []"
  by (simp add: links_at_def)

lemma links_at_skip:
  "\<not> eligible all_indicies c \<Longrightarrow>
   links_at m all_indicies dir a (c # cs) = links_at m all_indicies dir a cs"
  by (simp add: links_at_def split: sum.splits prod.splits)

lemma links_at_append:
  "eligible all_indicies c \<Longrightarrow> scoped_link m c = Inr (p, l) \<Longrightarrow>
   links_at m all_indicies dir a (c # cs) =
     (if map_of dir p = Some a then [l] else []) @ links_at m all_indicies dir a cs"
  by (simp add: links_at_def)

text \<open>
  The loop changes nothing but the link lists of the Blocks in the store, and to each
  Block it appends the Links owed to its address.
\<close>

lemma connect_result:
  assumes "connect m all_indicies cs s = Inr s'"
    and "\<forall>(p, a) \<in> set (block_directory_by_path s). a < length (heap s)"
  shows "block_directory_by_path s' = block_directory_by_path s \<and>
         all_verticies s' = all_verticies s \<and> warnings s' = warnings s \<and>
         length (heap s') = length (heap s) \<and>
         (\<forall>a < length (heap s). heap s' ! a =
            (heap s ! a)\<lparr> block_links := block_links (heap s ! a) @
               links_at m all_indicies (block_directory_by_path s) a cs \<rparr>)"
  using assms
proof (induction cs arbitrary: s)
  case Nil
  then show ?case by simp
next
  case (Cons c cs)
  show ?case
  proof (cases "eligible all_indicies c")
    case False
    with Cons.prems(1) have "connect m all_indicies cs s = Inr s'"
      by (simp add: connect_skip)
    from Cons.IH [OF this Cons.prems(2)] False show ?thesis
      by (simp add: links_at_skip)
  next
    case True
    show ?thesis
    proof (cases "scoped_link m c")
      case (Inl x)
      with True Cons.prems(1) show ?thesis by (simp add: connect_raise)
    next
      case (Inr pl)
      obtain p l where pl: "scoped_link m c = Inr (p, l)" using Inr by (cases pl) simp
      show ?thesis
      proof (cases "map_of (block_directory_by_path s) p")
        case None
        with True pl Cons.prems(1) show ?thesis by (simp add: connect_key_error)
      next
        case (Some a)
        let ?s1 = "s\<lparr> heap := (heap s)[a := (heap s ! a)
                       \<lparr> block_links := block_links (heap s ! a) @ [l] \<rparr>] \<rparr>"
        from Some have "(p, a) \<in> set (block_directory_by_path s)" by (rule map_of_SomeD)
        with Cons.prems(2) have a: "a < length (heap s)" by auto
        from True pl Some Cons.prems(1) have run: "connect m all_indicies cs ?s1 = Inr s'"
          by (simp add: connect_append)
        have valid: "\<forall>(p, a) \<in> set (block_directory_by_path ?s1). a < length (heap ?s1)"
          using Cons.prems(2) by simp
        from Cons.IH [OF run valid] have ih:
          "block_directory_by_path s' = block_directory_by_path s"
          "all_verticies s' = all_verticies s" "warnings s' = warnings s"
          "length (heap s') = length (heap s)"
          "\<forall>x < length (heap s). heap s' ! x =
            (heap ?s1 ! x)\<lparr> block_links := block_links (heap ?s1 ! x) @
               links_at m all_indicies (block_directory_by_path s) x cs \<rparr>"
          by simp_all
        have "\<forall>x < length (heap s). heap s' ! x =
            (heap s ! x)\<lparr> block_links := block_links (heap s ! x) @
               links_at m all_indicies (block_directory_by_path s) x (c # cs) \<rparr>"
        proof (intro allI impI)
          fix x assume x: "x < length (heap s)"
          show "heap s' ! x =
            (heap s ! x)\<lparr> block_links := block_links (heap s ! x) @
               links_at m all_indicies (block_directory_by_path s) x (c # cs) \<rparr>"
          proof (cases "x = a")
            case True
            with ih(5) x a Some show ?thesis
              by (simp add: links_at_append [OF \<open>eligible all_indicies c\<close> pl])
          next
            case False
            with ih(5) x a Some show ?thesis
              by (simp add: links_at_append [OF \<open>eligible all_indicies c\<close> pl])
          qed
        qed
        with ih show ?thesis by simp
      qed
    qed
  qed
qed

text \<open>When the loop returns, every eligible edge has found its owner in the directory.\<close>

lemma connect_owners:
  assumes "connect m all_indicies cs s = Inr s'"
  shows "\<forall>e \<in> set cs. eligible all_indicies e \<longrightarrow>
           (\<exists>p l a. scoped_link m e = Inr (p, l) \<and>
                    map_of (block_directory_by_path s) p = Some a)"
  using assms
proof (induction cs arbitrary: s)
  case Nil
  then show ?case by simp
next
  case (Cons c cs)
  show ?case
  proof (cases "eligible all_indicies c")
    case False
    with Cons.prems have "connect m all_indicies cs s = Inr s'" by (simp add: connect_skip)
    from Cons.IH [OF this] False show ?thesis by simp
  next
    case True
    show ?thesis
    proof (cases "scoped_link m c")
      case (Inl x)
      with True Cons.prems show ?thesis by (simp add: connect_raise)
    next
      case (Inr pl)
      obtain p l where pl: "scoped_link m c = Inr (p, l)" using Inr by (cases pl) simp
      show ?thesis
      proof (cases "map_of (block_directory_by_path s) p")
        case None
        with True pl Cons.prems show ?thesis by (simp add: connect_key_error)
      next
        case (Some a)
        let ?s1 = "s\<lparr> heap := (heap s)[a := (heap s ! a)
                       \<lparr> block_links := block_links (heap s ! a) @ [l] \<rparr>] \<rparr>"
        from True pl Some Cons.prems have "connect m all_indicies cs ?s1 = Inr s'"
          by (simp add: connect_append)
        from Cons.IH [OF this] pl Some show ?thesis by simp
      qed
    qed
  qed
qed

text \<open>
  C3, as amended. An edge with an endpoint that is not in the registry of visited
  vertices has no effect on the loop: it appends no Link and raises no error, whatever
  the collaborators would do on it. The loop over all the connections is the loop over
  the eligible ones.
\<close>

theorem connect_drops_unvisited:
  "connect m all_indicies connections s =
     connect m all_indicies
       (filter (\<lambda>e. edge_source e \<in> all_indicies \<and> edge_target e \<in> all_indicies) connections) s"
proof (induction connections arbitrary: s)
  case Nil
  show ?case by simp
next
  case (Cons c cs)
  let ?kept = "filter (\<lambda>e. edge_source e \<in> all_indicies \<and> edge_target e \<in> all_indicies) cs"
  show ?case
  proof (cases "eligible all_indicies c")
    case False
    then have "connect m all_indicies (c # cs) s = connect m all_indicies cs s"
      by (rule connect_skip)
    also have "\<dots> = connect m all_indicies ?kept s" by (rule Cons.IH)
    finally show ?thesis using False by (auto simp: eligible_def)
  next
    case True
    have "connect m all_indicies (c # cs) s = connect m all_indicies (c # ?kept) s"
    proof (cases "scoped_link m c")
      case (Inl x)
      with True show ?thesis by (simp add: connect_raise)
    next
      case (Inr pl)
      obtain p l where pl: "scoped_link m c = Inr (p, l)" using Inr by (cases pl) simp
      show ?thesis
      proof (cases "map_of (block_directory_by_path s) p")
        case None
        with True pl show ?thesis by (simp add: connect_key_error)
      next
        case (Some a)
        with True pl show ?thesis by (simp add: connect_append Cons.IH [symmetric])
      qed
    qed
    then show ?thesis using True by (simp add: eligible_def)
  qed
qed
subsection \<open>The bound on the depth\<close>

text \<open>
  A visit that returns with some bound on the depth of the recursion returns the same
  with every larger bound: the bound only decides whether the recursion is cut short.
\<close>

lemma traversal_more_fuel:
  shows "\<forall>r. generic_visit_block n1 m1 v1 s1 = Inr r \<longrightarrow>
           generic_visit_block (Suc n1) m1 v1 s1 = Inr r"
    and "\<forall>r. wander_blocks n2 m2 cs2 s2 = Inr r \<longrightarrow> wander_blocks (Suc n2) m2 cs2 s2 = Inr r"
    and "\<forall>r. wander_interface n3 m3 v3 s3 = Inr r \<longrightarrow>
           wander_interface (Suc n3) m3 v3 s3 = Inr r"
    and "\<forall>r. wander_pins n4 m4 cs4 s4 = Inr r \<longrightarrow> wander_pins (Suc n4) m4 cs4 s4 = Inr r"
    and "\<forall>r. visit_interface n5 m5 v5 s5 = Inr r \<longrightarrow> visit_interface (Suc n5) m5 v5 s5 = Inr r"
proof (induction n1 m1 v1 s1 and n2 m2 cs2 s2 and n3 m3 v3 s3 and n4 m4 cs4 s4 and n5 m5 v5 s5
    rule: generic_visit_block_wander_blocks_wander_interface_wander_pins_visit_interface.induct)
  case (2 n m v s)
  show ?case
  proof (intro allI impI)
    fix r
    assume run: "generic_visit_block (Suc n) m v s = Inr r"
    let ?cs = "wander_targets m v mode_in part_of [component, module]"
    from run obtain blocks s2 pins s3 where
      kids: "wander_blocks n m ?cs (enter_block v s) = Inr (blocks, s2)" and
      gather: "wander_interface n m v s2 = Inr (pins, s3)" and
      r: "r = finish_block m v blocks pins s3"
      by (auto split: sum.splits)
    from "2.IH"(1) kids have "wander_blocks (Suc n) m ?cs (enter_block v s) = Inr (blocks, s2)"
      by blast
    moreover from "2.IH"(2) [OF kids refl] gather
    have "wander_interface (Suc n) m v s2 = Inr (pins, s3)" by blast
    ultimately show "generic_visit_block (Suc (Suc n)) m v s = Inr r"
      using r by (simp del: wander_interface.simps)
  qed
next
  case (4 n m c cs s)
  show ?case
  proof (intro allI impI)
    fix r
    assume run: "wander_blocks n m (c # cs) s = Inr r"
    let ?first = "if vertex_type m c = component \<or> vertex_type m c = module
            then generic_visit_block n m c s else Inl DispatchError"
    from run obtain b s1 rest s' where
      first: "?first = Inr (b, s1)" and more: "wander_blocks n m cs s1 = Inr (rest, s')" and
      r: "r = (b # rest, s')"
      by (auto split: sum.splits)
    from first have ty: "vertex_type m c = component \<or> vertex_type m c = module"
      and visit: "generic_visit_block n m c s = Inr (b, s1)"
      by (auto split: if_splits)
    from "4.IH"(1) [OF ty] visit have "generic_visit_block (Suc n) m c s = Inr (b, s1)"
      by blast
    moreover from "4.IH"(2) [OF first refl] more
    have "wander_blocks (Suc n) m cs s1 = Inr (rest, s')" by blast
    ultimately show "wander_blocks (Suc n) m (c # cs) s = Inr r"
      using ty r by (simp del: generic_visit_block.simps)
  qed
next
  case (5 n m v s)
  show ?case
  proof (intro allI impI)
    fix r
    assume run: "wander_interface n m v s = Inr r"
    let ?cs = "wander_targets m v mode_in part_of [pin, signal, interface]"
    from run obtain ls s1 where
      w: "wander_pins n m ?cs s = Inr (ls, s1)" and r: "r = (flatten_listy ls, s1)"
      by (auto split: sum.splits)
    from "5.IH" w have "wander_pins (Suc n) m ?cs s = Inr (ls, s1)" by blast
    then show "wander_interface (Suc n) m v s = Inr r" using r by simp
  qed
next
  case (7 n m c cs s)
  show ?case
  proof (intro allI impI)
    fix r
    assume run: "wander_pins n m (c # cs) s = Inr r"
    let ?first = "\<lambda>k. if vertex_type m c = interface
            then (case visit_interface k m c s of
                    Inl e \<Rightarrow> Inl e
                  | Inr (ps, s1) \<Rightarrow> Inr (ListPins ps, s1))
            else visit_leaf m c s"
    from run obtain x s1 rs s' where
      first: "?first n = Inr (x, s1)" and rest: "wander_pins n m cs s1 = Inr (rs, s')" and
      r: "r = (x # rs, s')"
      by (auto split: sum.splits)
    have "?first (Suc n) = Inr (x, s1)"
    proof (cases "vertex_type m c = interface")
      case True
      with first obtain ps where v: "visit_interface n m c s = Inr (ps, s1)" and
        x: "x = ListPins ps"
        by (auto split: sum.splits)
      from "7.IH"(1) [OF True] v have "visit_interface (Suc n) m c s = Inr (ps, s1)" by blast
      with True x show ?thesis by (simp del: visit_interface.simps)
    next
      case False
      with first show ?thesis by simp
    qed
    moreover from "7.IH"(2) [OF first refl] rest
    have "wander_pins (Suc n) m cs s1 = Inr (rs, s')" by blast
    ultimately show "wander_pins (Suc n) m (c # cs) s = Inr r"
      using r by (simp del: visit_interface.simps)
  qed
next
  case (9 n m v s)
  show ?case
  proof (intro allI impI)
    fix r
    assume run: "visit_interface (Suc n) m v s = Inr r"
    then obtain ps s1 where
      w: "wander_interface n m v s = Inr (ps, s1)" and
      r: "r = (map (\<lambda>p. p\<lparr> pin_name := ref m v @ ''-'' @ pin_name p \<rparr>) ps, s1)"
      by (auto split: sum.splits)
    from "9.IH" w have "wander_interface (Suc n) m v s = Inr (ps, s1)" by blast
    then show "visit_interface (Suc (Suc n)) m v s = Inr r"
      using r by (simp del: wander_interface.simps)
  qed
qed simp_all

lemma generic_visit_block_more_fuel:
  assumes "generic_visit_block n m v s = Inr r" and "n \<le> n'"
  shows "generic_visit_block n' m v s = Inr r"
  using assms(2,1)
proof (induction n' rule: dec_induct)
  case base
  then show ?case by simp
next
  case (step k)
  then show ?case using traversal_more_fuel(1) by blast
qed

lemma build_more_fuel:
  assumes "generic_visit_block n m main Bob_init = Inr r" and "n \<le> n'"
  shows "build n' m main = build n m main"
  using generic_visit_block_more_fuel [OF assms] assms(1) by (simp add: build_def)
subsection \<open>The two designs, evaluated\<close>


lemma design1_build: "build 4 design1 0 = Inr (2, design1_built)"
  by code_simp

lemma design2_generic_visit_block:
  "generic_visit_block 2 design2 0 Bob_init = Inr (0, design2_traversed)"
  by code_simp

lemma design2_build: "build 2 design2 0 = Inl (KeyError ''M.I'')"
  by code_simp

lemma design3_build: "build 2 design3 0 = Inr (1, design3_built)"
  by code_simp
subsection \<open>The build\<close>

lemma Bob_init_ok: "store_ok Bob_init" "no_links Bob_init"
  by (simp_all add: store_ok_def no_links_def Bob_init_def)

text \<open>The two passes of \<^verbatim>\<open>build\<close>, and the builder between them.\<close>

lemma build_passes:
  assumes "build fuel m main = Inr (root, bob)"
  obtains bob0 where
    "generic_visit_block fuel m main Bob_init = Inr (root, bob0)"
    "connect m (set (all_verticies bob0)) (filter (\<lambda>e. edge_type e = connects_to) (es m))
       (bob0\<lparr> heap := (heap bob0)[root := (heap bob0 ! root)
                 \<lparr> block_instance_of := Some (path m main) \<rparr>] \<rparr>) = Inr bob"
  using assms by (auto simp: build_def Let_def split: sum.splits)

lemma build_store:
  assumes "build fuel m main = Inr (root, bob)"
  obtains bob0 where
    "generic_visit_block fuel m main Bob_init = Inr (root, bob0)"
    "Suc root = length (heap bob0)"
    "length (heap bob) = length (heap bob0)"
    "block_directory_by_path bob = block_directory_by_path bob0"
    "all_verticies bob = all_verticies bob0"
    "\<forall>(p, a) \<in> set (block_directory_by_path bob0). a < length (heap bob0)"
    "\<forall>a < length (heap bob0). heap bob ! a =
       (if a = root then (heap bob0 ! a)\<lparr> block_instance_of := Some (path m main) \<rparr>
        else heap bob0 ! a)
       \<lparr> block_links := links_at m (set (all_verticies bob0)) (block_directory_by_path bob0) a
            (filter (\<lambda>e. edge_type e = connects_to) (es m)) \<rparr>"
proof -
  from assms obtain bob0 where
    visit: "generic_visit_block fuel m main Bob_init = Inr (root, bob0)" and
    loop: "connect m (set (all_verticies bob0)) (filter (\<lambda>e. edge_type e = connects_to) (es m))
       (bob0\<lparr> heap := (heap bob0)[root := (heap bob0 ! root)
                 \<lparr> block_instance_of := Some (path m main) \<rparr>] \<rparr>) = Inr bob"
    by (rule build_passes)
  let ?bob1 = "bob0\<lparr> heap := (heap bob0)[root := (heap bob0 ! root)
                 \<lparr> block_instance_of := Some (path m main) \<rparr>] \<rparr>"
  from generic_visit_block_store [OF visit] Bob_init_ok have
    root: "Suc root = length (heap bob0)" and ok: "store_ok bob0" and nl: "no_links bob0"
    by simp_all
  from ok have valid: "\<forall>(p, a) \<in> set (block_directory_by_path bob0). a < length (heap bob0)"
    by (simp add: store_ok_def)
  then have valid1: "\<forall>(p, a) \<in> set (block_directory_by_path ?bob1). a < length (heap ?bob1)"
    by simp
  from nl have empty: "\<forall>a < length (heap bob0). block_links (heap bob0 ! a) = []"
    by (simp add: no_links_def)
  note res = connect_result [OF loop valid1]
  from res have dir: "block_directory_by_path bob = block_directory_by_path bob0"
    by simp
  from res have reg: "all_verticies bob = all_verticies bob0"
    by simp
  from res have len: "length (heap bob) = length (heap bob0)"
    by simp
  note each = res [THEN conjunct2, THEN conjunct2, THEN conjunct2, THEN conjunct2]
  have blocks: "\<forall>a < length (heap bob0). heap bob ! a =
       (if a = root then (heap bob0 ! a)\<lparr> block_instance_of := Some (path m main) \<rparr>
        else heap bob0 ! a)
       \<lparr> block_links := links_at m (set (all_verticies bob0)) (block_directory_by_path bob0) a
            (filter (\<lambda>e. edge_type e = connects_to) (es m)) \<rparr>"
  proof (intro allI impI)
    fix a assume a: "a < length (heap bob0)"
    then have a1: "a < length (heap ?bob1)" by simp
    have old: "block_links (heap bob0 ! a) = []" using empty a by blast
    have at: "heap ?bob1 ! a =
        (if a = root then (heap bob0 ! a)\<lparr> block_instance_of := Some (path m main) \<rparr>
         else heap bob0 ! a)"
      using a by (simp add: nth_list_update)
    have dir1: "block_directory_by_path ?bob1 = block_directory_by_path bob0" by simp
    have "heap bob ! a = (heap ?bob1 ! a)\<lparr> block_links := block_links (heap ?bob1 ! a) @
        links_at m (set (all_verticies bob0)) (block_directory_by_path ?bob1) a
          (filter (\<lambda>e. edge_type e = connects_to) (es m)) \<rparr>"
      using each a1 by blast
    then show "heap bob ! a =
       (if a = root then (heap bob0 ! a)\<lparr> block_instance_of := Some (path m main) \<rparr>
        else heap bob0 ! a)
       \<lparr> block_links := links_at m (set (all_verticies bob0)) (block_directory_by_path bob0) a
            (filter (\<lambda>e. edge_type e = connects_to) (es m)) \<rparr>"
      unfolding at dir1 using old by (cases "a = root") simp_all
  qed
  show thesis by (rule that [OF visit root len dir reg valid blocks])
qed

text \<open>
  C8. When \<^verbatim>\<open>build\<close> returns, the root Block it returns is in the store and its
  \<^verbatim>\<open>instance_of\<close> is the path of the root vertex, whatever the traversal has put there.
\<close>

theorem build_root_instance_of:
  assumes "build fuel m main = Inr (root, bob)"
  shows "root < length (heap bob) \<and>
         block_instance_of (heap bob ! root) = Some (path m main)"
proof -
  from assms obtain bob0 where
    "generic_visit_block fuel m main Bob_init = Inr (root, bob0)"
    "Suc root = length (heap bob0)" "length (heap bob) = length (heap bob0)"
    "block_directory_by_path bob = block_directory_by_path bob0"
    "all_verticies bob = all_verticies bob0"
    "\<forall>(p, a) \<in> set (block_directory_by_path bob0). a < length (heap bob0)"
    "\<forall>a < length (heap bob0). heap bob ! a =
       (if a = root then (heap bob0 ! a)\<lparr> block_instance_of := Some (path m main) \<rparr>
        else heap bob0 ! a)
       \<lparr> block_links := links_at m (set (all_verticies bob0)) (block_directory_by_path bob0) a
            (filter (\<lambda>e. edge_type e = connects_to) (es m)) \<rparr>"
    by (rule build_store)
  then show ?thesis by simp
qed

text \<open>
  In the first design the root \<^verbatim>\<open>M\<close> has an \<^verbatim>\<open>instance_of\<close> edge to the template
  \<^verbatim>\<open>T\<close>: the traversal computes \<^verbatim>\<open>T\<close>, and the build returns \<^verbatim>\<open>M\<close>.
\<close>

theorem build_root_instance_of_witness:
  "build 4 design1 0 = Inr (2, design1_built) \<and>
   block_instance_of (heap design1_traversed ! 2) = Some ''T'' \<and>
   block_instance_of (heap design1_built ! 2) = Some ''M''"
proof -
  have "block_instance_of (heap design1_traversed ! 2) = Some ''T''" by code_simp
  moreover have "path design1 0 = ''M''" by code_simp
  ultimately show ?thesis
    using build_root_instance_of [OF design1_build] design1_build by simp
qed

text \<open>
  For a build that returns: every eligible edge has found the Block of its least common
  ancestor in the directory, and the link list of every Block is made of the Links owed
  to its address.
\<close>

lemma build_links_scoped:
  assumes "build fuel m main = Inr (root, bob)"
  shows "(\<forall>e \<in> set (es m).
            edge_type e = connects_to \<and> eligible (set (all_verticies bob)) e \<longrightarrow>
            (\<exists>p l a. scoped_link m e = Inr (p, l) \<and>
                     map_of (block_directory_by_path bob) p = Some a \<and>
                     a < length (heap bob))) \<and>
         (\<forall>a < length (heap bob).
            block_links (heap bob ! a) =
              links_at m (set (all_verticies bob)) (block_directory_by_path bob) a
                (filter (\<lambda>e. edge_type e = connects_to) (es m)))"
proof -
  from assms obtain bob0 where
    visit: "generic_visit_block fuel m main Bob_init = Inr (root, bob0)" and
    len: "length (heap bob) = length (heap bob0)" and
    dir: "block_directory_by_path bob = block_directory_by_path bob0" and
    reg: "all_verticies bob = all_verticies bob0" and
    valid: "\<forall>(p, a) \<in> set (block_directory_by_path bob0). a < length (heap bob0)" and
    blocks: "\<forall>a < length (heap bob0). heap bob ! a =
       (if a = root then (heap bob0 ! a)\<lparr> block_instance_of := Some (path m main) \<rparr>
        else heap bob0 ! a)
       \<lparr> block_links := links_at m (set (all_verticies bob0)) (block_directory_by_path bob0) a
            (filter (\<lambda>e. edge_type e = connects_to) (es m)) \<rparr>"
    by (rule build_store)
  from assms visit have loop:
    "connect m (set (all_verticies bob0)) (filter (\<lambda>e. edge_type e = connects_to) (es m))
       (bob0\<lparr> heap := (heap bob0)[root := (heap bob0 ! root)
                 \<lparr> block_instance_of := Some (path m main) \<rparr>] \<rparr>) = Inr bob"
    by (auto simp: build_def Let_def split: sum.splits)
  have "\<forall>e \<in> set (es m).
            edge_type e = connects_to \<and> eligible (set (all_verticies bob)) e \<longrightarrow>
            (\<exists>p l a. scoped_link m e = Inr (p, l) \<and>
                     map_of (block_directory_by_path bob) p = Some a \<and>
                     a < length (heap bob))"
  proof (intro ballI impI)
    fix e assume e: "e \<in> set (es m)"
      and el: "edge_type e = connects_to \<and> eligible (set (all_verticies bob)) e"
    with connect_owners [OF loop] reg obtain p l a where
      pl: "scoped_link m e = Inr (p, l)" and a: "map_of (block_directory_by_path bob0) p = Some a"
      by fastforce
    from a have "(p, a) \<in> set (block_directory_by_path bob0)" by (rule map_of_SomeD)
    with valid have "a < length (heap bob0)" by auto
    with pl a dir len show "\<exists>p l a. scoped_link m e = Inr (p, l) \<and>
        map_of (block_directory_by_path bob) p = Some a \<and> a < length (heap bob)"
      by auto
  qed
  moreover have "\<forall>a < length (heap bob).
            block_links (heap bob ! a) =
              links_at m (set (all_verticies bob)) (block_directory_by_path bob) a
                (filter (\<lambda>e. edge_type e = connects_to) (es m))"
    using blocks len dir reg by simp
  ultimately show ?thesis by blast
qed
text \<open>
  In the first design the connection of \<^verbatim>\<open>C1.p\<close> to \<^verbatim>\<open>C2.q\<close> has the least common
  ancestor \<^verbatim>\<open>M\<close>, which the directory sends to the Block at address 2; that Block gets
  the Link from \<^verbatim>\<open>C1.p\<close> to \<^verbatim>\<open>C2.q\<close> and the Link from \<^verbatim>\<open>C1.p\<close> to \<^verbatim>\<open>C2.I-J-b\<close>.
\<close>

lemma design1_links_scoped:
  "build 4 design1 0 = Inr (2, design1_built) \<and>
   \<lparr> edge_source = 3, edge_target = 5, edge_type = connects_to \<rparr> \<in> set (es design1) \<and>
   eligible (set (all_verticies design1_built))
     \<lparr> edge_source = 3, edge_target = 5, edge_type = connects_to \<rparr> \<and>
   scoped_link design1 \<lparr> edge_source = 3, edge_target = 5, edge_type = connects_to \<rparr> =
     Inr (''M'', \<lparr> link_name = ''M.C1.p~M.C2.q'', link_source = ''C1.p'',
                    link_target = ''C2.q'' \<rparr>) \<and>
   map_of (block_directory_by_path design1_built) ''M'' = Some 2 \<and>
   block_links (heap design1_built ! 2) =
     [\<lparr> link_name = ''M.C1.p~M.C2.q'', link_source = ''C1.p'', link_target = ''C2.q'' \<rparr>,
      \<lparr> link_name = ''M.C1.p~M.C2.I.J.b'', link_source = ''C1.p'',
         link_target = ''C2.I-J-b'' \<rparr>]"
proof -
  have edge: "\<lparr> edge_source = 3, edge_target = 5, edge_type = connects_to \<rparr> \<in> set (es design1)"
    by code_simp
  have el: "eligible (set (all_verticies design1_built))
     \<lparr> edge_source = 3, edge_target = 5, edge_type = connects_to \<rparr>"
    by code_simp
  have sc: "scoped_link design1 \<lparr> edge_source = 3, edge_target = 5, edge_type = connects_to \<rparr> =
     Inr (''M'', \<lparr> link_name = ''M.C1.p~M.C2.q'', link_source = ''C1.p'',
                    link_target = ''C2.q'' \<rparr>)"
    by code_simp
  have dir: "map_of (block_directory_by_path design1_built) ''M'' = Some 2"
    by code_simp
  have len: "2 < length (heap design1_built)"
    by code_simp
  have owed: "links_at design1 (set (all_verticies design1_built))
      (block_directory_by_path design1_built) 2
      (filter (\<lambda>e. edge_type e = connects_to) (es design1)) =
     [\<lparr> link_name = ''M.C1.p~M.C2.q'', link_source = ''C1.p'', link_target = ''C2.q'' \<rparr>,
      \<lparr> link_name = ''M.C1.p~M.C2.I.J.b'', link_source = ''C1.p'',
         link_target = ''C2.I-J-b'' \<rparr>]"
    by code_simp
  from build_links_scoped [OF design1_build] len
  have "block_links (heap design1_built ! 2) =
      links_at design1 (set (all_verticies design1_built))
        (block_directory_by_path design1_built) 2
        (filter (\<lambda>e. edge_type e = connects_to) (es design1))"
    by blast
  with owed design1_build edge el sc dir show ?thesis by simp
qed

text \<open>
  In the first design the edge from \<^verbatim>\<open>C2.q\<close> to the pin \<^verbatim>\<open>x\<close> of the template \<^verbatim>\<open>T\<close>
  leaves the part of the graph under \<^verbatim>\<open>M\<close>; the loop over it alone returns the builder
  as it was.
\<close>

theorem connect_drops_unvisited_witness:
  "13 \<notin> set (all_verticies design1_traversed) \<and>
   connect design1 (set (all_verticies design1_traversed))
     [\<lparr> edge_source = 5, edge_target = 13, edge_type = connects_to \<rparr>] design1_traversed =
   Inr design1_traversed"
proof -
  have out: "13 \<notin> set (all_verticies design1_traversed)"
    by code_simp
  have "filter (\<lambda>e. edge_source e \<in> set (all_verticies design1_traversed) \<and>
                    edge_target e \<in> set (all_verticies design1_traversed))
          [\<lparr> edge_source = 5, edge_target = 13, edge_type = connects_to \<rparr>] = []"
    by code_simp
  with connect_drops_unvisited [of design1 "set (all_verticies design1_traversed)"
      "[\<lparr> edge_source = 5, edge_target = 13, edge_type = connects_to \<rparr>]" design1_traversed] out
  show ?thesis by simp
qed

text \<open>
  Against C3 as stated. In the first design the pin \<^verbatim>\<open>e\<close> of \<^verbatim>\<open>C1\<close> is pruned by
  elision: it is not among the pins of the Block of \<^verbatim>\<open>C1\<close>. It is in the registry all
  the same, and its edge to the signal \<^verbatim>\<open>s\<close> is not dropped: the build returns with the
  Link from \<^verbatim>\<open>e\<close> to \<^verbatim>\<open>s\<close> in the link list of that Block.
\<close>

theorem elided_pin_edge_not_dropped:
  "vertex_type design1 12 = pin \<and> elision_condition design1 12 \<and>
   visit_pin design1 12 Bob_init = Inr (None, Bob_init\<lparr> all_verticies := [12] \<rparr>) \<and>
   \<lparr> edge_source = 12, edge_target = 4, edge_type = connects_to \<rparr> \<in> set (es design1) \<and>
   build 4 design1 0 = Inr (2, design1_built) \<and>
   12 \<in> set (all_verticies design1_built) \<and>
   map pin_name (block_pins (heap design1_built ! 0)) = [''p'', ''s''] \<and>
   \<lparr> link_name = ''M.C1.e~M.C1.s'', link_source = ''e'', link_target = ''s'' \<rparr>
     \<in> set (block_links (heap design1_built ! 0))"
  by (intro conjI; code_simp)

subsection \<open>A connection inside an interface\<close>

text \<open>
  C10. In the second design the pins \<^verbatim>\<open>a\<close> and \<^verbatim>\<open>b\<close> are both parts of the interface
  \<^verbatim>\<open>I\<close> and are connected. Both are visited, their least common ancestor is \<^verbatim>\<open>I\<close>, and
  the directory, which holds the Block of \<^verbatim>\<open>M\<close> only, has no entry for the path of
  \<^verbatim>\<open>I\<close>: the build fails with the lookup error for that path, with every bound on the
  depth that lets the traversal end.
\<close>

theorem interface_lca_key_error:
  "vertex_type design2 1 = interface \<and> path design2 1 = ''M.I'' \<and>
   get_adjacents design2 2 mode_out part_of = [1] \<and>
   get_adjacents design2 3 mode_out part_of = [1] \<and>
   \<lparr> edge_source = 2, edge_target = 3, edge_type = connects_to \<rparr> \<in> set (es design2) \<and>
   resolve_rel_name design2 [2, 3] = Inr (1, ''M.I.a~M.I.b'') \<and>
   generic_visit_block 2 design2 0 Bob_init = Inr (0, design2_traversed) \<and>
   eligible (set (all_verticies design2_traversed))
     \<lparr> edge_source = 2, edge_target = 3, edge_type = connects_to \<rparr> \<and>
   map fst (block_directory_by_path design2_traversed) = [''M''] \<and>
   (\<forall>fuel. build fuel design2 0 =
      (if fuel < 2 then Inl RecursionError else Inl (KeyError ''M.I'')))"
proof -
  have facts:
    "vertex_type design2 1 = interface" "path design2 1 = ''M.I''"
    "get_adjacents design2 2 mode_out part_of = [1]"
    "get_adjacents design2 3 mode_out part_of = [1]"
    "\<lparr> edge_source = 2, edge_target = 3, edge_type = connects_to \<rparr> \<in> set (es design2)"
    "resolve_rel_name design2 [2, 3] = Inr (1, ''M.I.a~M.I.b'')"
    "eligible (set (all_verticies design2_traversed))
       \<lparr> edge_source = 2, edge_target = 3, edge_type = connects_to \<rparr>"
    "map fst (block_directory_by_path design2_traversed) = [''M'']"
    by code_simp+
  have short: "build 0 design2 0 = Inl RecursionError" "build 1 design2 0 = Inl RecursionError"
    by code_simp+
  have "build fuel design2 0 =
      (if fuel < 2 then Inl RecursionError else Inl (KeyError ''M.I''))" for fuel
  proof (cases "fuel < 2")
    case True
    then have "fuel = 0 \<or> fuel = 1" by arith
    with short True show ?thesis by auto
  next
    case False
    then have "2 \<le> fuel" by simp
    from build_more_fuel [OF design2_generic_visit_block this] design2_build False
    show ?thesis by simp
  qed
  with facts design2_generic_visit_block show ?thesis by blast
qed

theorem interface_lca_key_error_witness: "build 2 design2 0 = Inl (KeyError ''M.I'')"
  using interface_lca_key_error by simp

subsection \<open>The instance of a block\<close>

lemma finish_block_instance_of:
  "finish_block m v blocks pins s = (a, s') \<Longrightarrow>
   a < length (heap s') \<and>
   block_instance_of (heap s' ! a) =
     (case get_adjacents m v mode_out instance_of of [] \<Rightarrow> None | x # _ \<Rightarrow> Some (path m x)) \<and>
   warnings s' = warnings s @
     (if 1 < length (get_adjacents m v mode_out instance_of) then [multiple_warning m v] else [])"
  by (cases "get_adjacents m v mode_out instance_of")
     (auto simp: finish_block_def Let_def)

text \<open>
  C7. Once the children of a block vertex have been visited, the visit of the vertex
  returns, whatever the number of its outbound \<^verbatim>\<open>instance_of\<close> edges: the new Block's
  \<^verbatim>\<open>instance_of\<close> is absent when there is none and the path of the first adjacent vertex
  otherwise, and the warning is written exactly when there is more than one.
\<close>

theorem generic_visit_block_instance_of:
  assumes "wander_blocks n m (wander_targets m v mode_in part_of [component, module])
             (enter_block v s) = Inr (blocks, s2)"
    and "wander_interface n m v s2 = Inr (pins, s3)"
  shows "\<exists>a s'. generic_visit_block (Suc n) m v s = Inr (a, s') \<and>
           a < length (heap s') \<and>
           block_instance_of (heap s' ! a) =
             (case get_adjacents m v mode_out instance_of of
                [] \<Rightarrow> None
              | x # _ \<Rightarrow> Some (path m x)) \<and>
           warnings s' = warnings s3 @
             (if 1 < length (get_adjacents m v mode_out instance_of)
              then [multiple_warning m v] else [])"
proof -
  obtain a s' where fin: "finish_block m v blocks pins s3 = (a, s')"
    by (cases "finish_block m v blocks pins s3")
  with assms have "generic_visit_block (Suc n) m v s = Inr (a, s')"
    by (simp del: wander_interface.simps)
  with finish_block_instance_of [OF fin] show ?thesis by blast
qed

text \<open>
  In the first design \<^verbatim>\<open>C1\<close> is an instance of \<^verbatim>\<open>T\<close> and of \<^verbatim>\<open>U\<close>, in this order of the
  edges: its visit returns a Block that is an instance of \<^verbatim>\<open>T\<close>, and warns.
\<close>

theorem generic_visit_block_instance_of_witness:
  "get_adjacents design1 1 mode_out instance_of = [10, 11] \<and>
   (\<exists>a s'. generic_visit_block (Suc 1) design1 1 Bob_init = Inr (a, s') \<and>
      block_instance_of (heap s' ! a) = Some ''T'' \<and>
      warnings s' = [''Block M.C1 is an instance_of multiple things''])"
proof -
  have adj: "get_adjacents design1 1 mode_out instance_of = [10, 11]"
    by code_simp
  have first: "path design1 10 = ''T''"
    by code_simp
  have msg: "multiple_warning design1 1 = ''Block M.C1 is an instance_of multiple things''"
    by code_simp
  have kids: "wander_blocks 1 design1 (wander_targets design1 1 mode_in part_of [component, module])
      (enter_block 1 Bob_init) = Inr ([], enter_block 1 Bob_init)"
    by code_simp
  have "case wander_interface 1 design1 1 (enter_block 1 Bob_init) of
          Inl e \<Rightarrow> False | Inr (pins, s3) \<Rightarrow> warnings s3 = []"
    by code_simp
  then obtain pins s3 where
    gather: "wander_interface 1 design1 1 (enter_block 1 Bob_init) = Inr (pins, s3)" and
    quiet: "warnings s3 = []"
    by (auto split: sum.splits)
  from generic_visit_block_instance_of [OF kids gather] obtain a s' where
    run: "generic_visit_block (Suc 1) design1 1 Bob_init = Inr (a, s')" and
    inst: "block_instance_of (heap s' ! a) =
             (case get_adjacents design1 1 mode_out instance_of of
                [] \<Rightarrow> None
              | x # _ \<Rightarrow> Some (path design1 x))" and
    warn: "warnings s' = warnings s3 @
             (if 1 < length (get_adjacents design1 1 mode_out instance_of)
              then [multiple_warning design1 1] else [])"
    by blast
  from inst have "block_instance_of (heap s' ! a) = Some ''T''"
    unfolding adj using first by simp
  moreover from warn have "warnings s' = [''Block M.C1 is an instance_of multiple things'']"
    unfolding adj msg quiet by simp
  ultimately show ?thesis using adj run by blast
qed

subsection \<open>Interface flattening\<close>

text \<open>
  One step of the gathering. When the first of the children that \<^verbatim>\<open>wander_interface\<close>
  visits is an interface, its visit leaves the store and the directory as they are, and
  what it adds to the pin list, before the pins of the other children, is every Pin
  gathered from its own children, renamed.
\<close>

lemma interface_flattened:
  assumes "vertex_type m c = interface"
    and "wander_pins n m (c # cs) s = Inr (rs, s')"
  shows "\<exists>k pins s1 rest.
           n = Suc k \<and> wander_interface k m c s = Inr (pins, s1) \<and>
           heap s1 = heap s \<and> block_directory_by_path s1 = block_directory_by_path s \<and>
           wander_pins n m cs s1 = Inr (rest, s') \<and>
           flatten_listy rs =
             map (\<lambda>p. p\<lparr> pin_name := ref m c @ ''-'' @ pin_name p \<rparr>) pins @ flatten_listy rest"
proof -
  from assms obtain ps s1 rest where
    visit: "visit_interface n m c s = Inr (ps, s1)" and
    more: "wander_pins n m cs s1 = Inr (rest, s')" and
    rs: "rs = ListPins ps # rest"
    by (auto split: sum.splits)
  from visit obtain k where n: "n = Suc k" by (cases n) auto
  with visit obtain pins where
    gather: "wander_interface k m c s = Inr (pins, s1)" and
    ps: "ps = map (\<lambda>p. p\<lparr> pin_name := ref m c @ ''-'' @ pin_name p \<rparr>) pins"
    by (auto split: sum.splits)
  from visit_interface_same_blocks [OF visit] have
    "heap s1 = heap s" "block_directory_by_path s1 = block_directory_by_path s"
    by (simp_all add: same_blocks_def)
  with n gather more rs ps show ?thesis by simp
qed

text \<open>
  In the first design the interface \<^verbatim>\<open>I\<close> holds the pin \<^verbatim>\<open>a\<close> and the interface \<^verbatim>\<open>J\<close>,
  which holds the pin \<^verbatim>\<open>b\<close>: the pins of \<^verbatim>\<open>I\<close> come out as \<^verbatim>\<open>I-a\<close> and \<^verbatim>\<open>I-J-b\<close>.
\<close>

lemma design1_interface_flattened:
  "vertex_type design1 6 = interface \<and>
   (\<exists>pins s1. wander_interface 1 design1 6 Bob_init = Inr (pins, s1) \<and>
      map pin_name pins = [''a'', ''J-b''] \<and> heap s1 = [] \<and>
      (\<exists>rs s'. wander_pins (Suc 1) design1 [6] Bob_init = Inr (rs, s') \<and>
         map pin_name (flatten_listy rs) = [''I-a'', ''I-J-b'']))"
proof -
  have ty: "vertex_type design1 6 = interface"
    by code_simp
  have "case wander_pins (Suc 1) design1 [6] Bob_init of
          Inl e \<Rightarrow> False | Inr (rs, s') \<Rightarrow> map pin_name (flatten_listy rs) = [''I-a'', ''I-J-b'']"
    by code_simp
  then obtain rs s' where
    run: "wander_pins (Suc 1) design1 [6] Bob_init = Inr (rs, s')" and
    names: "map pin_name (flatten_listy rs) = [''I-a'', ''I-J-b'']"
    by (auto split: sum.splits)
  have ref: "ref design1 6 = ''I''"
    by code_simp
  from interface_flattened [OF ty run] obtain pins s1 rest where
    gather: "wander_interface 1 design1 6 Bob_init = Inr (pins, s1)" and
    store: "heap s1 = heap Bob_init" and
    rest: "wander_pins (Suc 1) design1 [] s1 = Inr (rest, s')" and
    flat: "flatten_listy rs =
      map (\<lambda>p. p\<lparr> pin_name := ref design1 6 @ ''-'' @ pin_name p \<rparr>) pins @ flatten_listy rest"
    by auto
  from rest have "rest = []" by simp
  with flat names ref have "map (\<lambda>p. ''I-'' @ pin_name p) pins = [''I-a'', ''I-J-b'']"
    by (simp add: comp_def)
  then have "map pin_name pins = [''a'', ''J-b'']"
    by (auto simp: map_eq_Cons_conv)
  with ty gather store run names show ?thesis
    by (auto simp: Bob_init_def)
qed

subsection \<open>Serialization\<close>

lemma to_dicts_all:
  "\<forall>c \<in> set cs. \<exists>d. to_dict n h c = Inr d \<Longrightarrow>
   \<exists>ds. to_dicts n h cs = Inr ds \<and> list_all2 (\<lambda>c d. to_dict n h c = Inr d) cs ds"
proof (induction cs)
  case Nil
  show ?case by simp
next
  case (Cons c cs)
  then obtain d ds where
    "to_dict n h c = Inr d" "to_dicts n h cs = Inr ds"
    "list_all2 (\<lambda>c d. to_dict n h c = Inr d) cs ds"
    by auto
  then show ?case by simp
qed

text \<open>
  In a store where every Block was made after its children, the serialization of the
  Block at address \<open>a\<close> returns as soon as the bound on the depth is above \<open>a\<close>.
\<close>

lemma to_dict_returns:
  assumes "\<forall>a \<in> {0..<length h}. \<forall>c \<in> set (block_blocks (h ! a)). c < a"
  shows "a < length h \<Longrightarrow> a < n \<Longrightarrow> \<exists>d. to_dict n h a = Inr d"
proof (induction n arbitrary: a)
  case 0
  then show ?case by simp
next
  case (Suc n)
  have "\<forall>c \<in> set (block_blocks (h ! a)). \<exists>d. to_dict n h c = Inr d"
  proof
    fix c assume c: "c \<in> set (block_blocks (h ! a))"
    with assms Suc.prems(1) have "c < a" by simp
    with Suc.prems have "c < length h" "c < n" by simp_all
    then show "\<exists>d. to_dict n h c = Inr d" by (rule Suc.IH)
  qed
  from to_dicts_all [OF this] obtain ds where
    "to_dicts n h (block_blocks (h ! a)) = Inr ds" by blast
  then show ?case by simp
qed

text \<open>
  C9, as amended. In a store where every Block was made after its children, the
  serialization of a Block returns, with a bound on the depth above its address, a
  dictionary with the seven entries \<^verbatim>\<open>name\<close>, \<^verbatim>\<open>type\<close>, \<^verbatim>\<open>fields\<close>, \<^verbatim>\<open>blocks\<close>, \<^verbatim>\<open>pins\<close>,
  \<^verbatim>\<open>links\<close> and \<^verbatim>\<open>instance_of\<close>, all of them present for every Block: the name, the type
  and the field mapping of the Block as they are; the serializations of its children,
  in their order; its pins as name and field mapping and its links as name, source and
  target, in their order, none left out and none renamed; and under \<^verbatim>\<open>instance_of\<close> the
  instance-of path, or \<^verbatim>\<open>None\<close> when the Block has none. The serialization is a function
  of the store and the address and changes neither.
\<close>

theorem to_dict_record:
  assumes "\<forall>a \<in> {0..<length h}. \<forall>c \<in> set (block_blocks (h ! a)). c < a"
    and "a < length h" and "a < Suc n"
  shows "\<exists>ds. list_all2 (\<lambda>c d. to_dict n h c = Inr d) (block_blocks (h ! a)) ds \<and>
           to_dict (Suc n) h a =
             Inr (PDict
               [(''name'', PStr (block_name (h ! a))),
                (''type'', PStr (block_type (h ! a))),
                (''fields'', PDict (block_fields (h ! a))),
                (''blocks'', PList ds),
                (''pins'', PList (map (\<lambda>p. PDict [(''name'', PStr (pin_name p)),
                                                    (''fields'', pin_fields p)])
                                     (block_pins (h ! a)))),
                (''links'', PList (map (\<lambda>l. PDict [(''name'', PStr (link_name l)),
                                                     (''source'', PStr (link_source l)),
                                                     (''target'', PStr (link_target l))])
                                      (block_links (h ! a)))),
                (''instance_of'', case block_instance_of (h ! a) of
                                    None \<Rightarrow> PNone
                                  | Some p \<Rightarrow> PStr p)])"
proof -
  have "\<forall>c \<in> set (block_blocks (h ! a)). \<exists>d. to_dict n h c = Inr d"
  proof
    fix c assume c: "c \<in> set (block_blocks (h ! a))"
    with assms(1,2) have "c < a" by simp
    with assms(2,3) have "c < length h" "c < n" by simp_all
    with assms(1) show "\<exists>d. to_dict n h c = Inr d" by (rule to_dict_returns)
  qed
  from to_dicts_all [OF this] obtain ds where
    "to_dicts n h (block_blocks (h ! a)) = Inr ds"
    "list_all2 (\<lambda>c d. to_dict n h c = Inr d) (block_blocks (h ! a)) ds"
    by blast
  then show ?thesis
    by (auto simp: pin_to_dict_def link_to_dict_def optional_str_def)
qed

text \<open>The store that \<^verbatim>\<open>build\<close> returns is such a store, and the root is in it.\<close>

lemma build_store_ordered:
  assumes "build fuel m main = Inr (root, bob)"
  shows "(\<forall>a \<in> {0..<length (heap bob)}. \<forall>c \<in> set (block_blocks (heap bob ! a)). c < a) \<and>
         root < length (heap bob)"
proof -
  from assms obtain bob0 where
    visit: "generic_visit_block fuel m main Bob_init = Inr (root, bob0)" and
    root: "Suc root = length (heap bob0)" and
    len: "length (heap bob) = length (heap bob0)" and
    "block_directory_by_path bob = block_directory_by_path bob0"
    "all_verticies bob = all_verticies bob0"
    "\<forall>(p, a) \<in> set (block_directory_by_path bob0). a < length (heap bob0)" and
    blocks: "\<forall>a < length (heap bob0). heap bob ! a =
       (if a = root then (heap bob0 ! a)\<lparr> block_instance_of := Some (path m main) \<rparr>
        else heap bob0 ! a)
       \<lparr> block_links := links_at m (set (all_verticies bob0)) (block_directory_by_path bob0) a
            (filter (\<lambda>e. edge_type e = connects_to) (es m)) \<rparr>"
    by (rule build_store)
  from generic_visit_block_store [OF visit] Bob_init_ok have "store_ok bob0" by simp
  then have kids: "\<forall>a \<in> {0..<length (heap bob0)}. \<forall>c \<in> set (block_blocks (heap bob0 ! a)). c < a"
    by (simp add: store_ok_def)
  have "\<forall>a \<in> {0..<length (heap bob)}. \<forall>c \<in> set (block_blocks (heap bob ! a)). c < a"
  proof (intro ballI)
    fix a c assume a: "a \<in> {0..<length (heap bob)}" and c: "c \<in> set (block_blocks (heap bob ! a))"
    from a len have a0: "a < length (heap bob0)" by simp
    with blocks have "block_blocks (heap bob ! a) = block_blocks (heap bob0 ! a)"
      by simp
    with c kids a0 show "c < a" by simp
  qed
  with root len show ?thesis by simp
qed

text \<open>
  The first design, serialized from the root: the Block of \<^verbatim>\<open>M\<close> with the records of
  \<^verbatim>\<open>C1\<close> and \<^verbatim>\<open>C2\<close> in its \<^verbatim>\<open>blocks\<close> entry. The third design: the Block of \<^verbatim>\<open>C\<close>, which
  is an instance of nothing, with \<^verbatim>\<open>None\<close> under \<^verbatim>\<open>instance_of\<close>.
\<close>

theorem to_dict_record_witness:
  "(build 4 design1 0 = Inr (2, design1_built) \<and>
   block_blocks (heap design1_built ! 2) = [0, 1] \<and>
   (\<exists>d1 d2. to_dict 2 (heap design1_built) 0 = Inr d1 \<and>
            to_dict 2 (heap design1_built) 1 = Inr d2 \<and>
            to_dict (Suc 2) (heap design1_built) 2 =
              Inr (PDict
                [(''name'', PStr ''M''),
                 (''type'', PStr ''module''),
                 (''fields'', PDict []),
                 (''blocks'', PList [d1, d2]),
                 (''pins'', PList []),
                 (''links'', PList
                    [PDict [(''name'', PStr ''M.C1.p~M.C2.q''), (''source'', PStr ''C1.p''),
                            (''target'', PStr ''C2.q'')],
                     PDict [(''name'', PStr ''M.C1.p~M.C2.I.J.b''), (''source'', PStr ''C1.p''),
                            (''target'', PStr ''C2.I-J-b'')]]),
                 (''instance_of'', PStr ''M'')]))) \<and>
   build 2 design3 0 = Inr (1, design3_built) \<and>
   block_instance_of (heap design3_built ! 0) = None \<and>
   to_dict (Suc 0) (heap design3_built) 0 =
     Inr (PDict
       [(''name'', PStr ''C''),
        (''type'', PStr ''component''),
        (''fields'', PDict []),
        (''blocks'', PList []),
        (''pins'', PList [PDict [(''name'', PStr ''p''), (''fields'', PDict [])]]),
        (''links'', PList []),
        (''instance_of'', PNone)])"
proof -
  have first: "build 4 design1 0 = Inr (2, design1_built) \<and>
   block_blocks (heap design1_built ! 2) = [0, 1] \<and>
   (\<exists>d1 d2. to_dict 2 (heap design1_built) 0 = Inr d1 \<and>
            to_dict 2 (heap design1_built) 1 = Inr d2 \<and>
            to_dict (Suc 2) (heap design1_built) 2 =
              Inr (PDict
                [(''name'', PStr ''M''),
                 (''type'', PStr ''module''),
                 (''fields'', PDict []),
                 (''blocks'', PList [d1, d2]),
                 (''pins'', PList []),
                 (''links'', PList
                    [PDict [(''name'', PStr ''M.C1.p~M.C2.q''), (''source'', PStr ''C1.p''),
                            (''target'', PStr ''C2.q'')],
                     PDict [(''name'', PStr ''M.C1.p~M.C2.I.J.b''), (''source'', PStr ''C1.p''),
                            (''target'', PStr ''C2.I-J-b'')]]),
                 (''instance_of'', PStr ''M'')]))"
  proof -
    from build_store_ordered [OF design1_build] have
      ordered: "\<forall>a \<in> {0..<length (heap design1_built)}.
                  \<forall>c \<in> set (block_blocks (heap design1_built ! a)). c < a" and
      root: "2 < length (heap design1_built)"
      by simp_all
    have bound: "(2::nat) < Suc 2" by simp
    have kids: "block_blocks (heap design1_built ! 2) = [0, 1]"
      by code_simp
    have fields:
      "block_name (heap design1_built ! 2) = ''M''"
      "block_type (heap design1_built ! 2) = ''module''"
      "block_fields (heap design1_built ! 2) = []"
      "block_pins (heap design1_built ! 2) = []"
      "block_instance_of (heap design1_built ! 2) = Some ''M''"
      "block_links (heap design1_built ! 2) =
         [\<lparr> link_name = ''M.C1.p~M.C2.q'', link_source = ''C1.p'', link_target = ''C2.q'' \<rparr>,
          \<lparr> link_name = ''M.C1.p~M.C2.I.J.b'', link_source = ''C1.p'',
             link_target = ''C2.I-J-b'' \<rparr>]"
      by code_simp+
    from to_dict_record [OF ordered root bound] obtain ds where
      ds: "list_all2 (\<lambda>c d. to_dict 2 (heap design1_built) c = Inr d)
             (block_blocks (heap design1_built ! 2)) ds" and
      rec: "to_dict (Suc 2) (heap design1_built) 2 =
               Inr (PDict
                 [(''name'', PStr (block_name (heap design1_built ! 2))),
                  (''type'', PStr (block_type (heap design1_built ! 2))),
                  (''fields'', PDict (block_fields (heap design1_built ! 2))),
                  (''blocks'', PList ds),
                  (''pins'', PList (map (\<lambda>p. PDict [(''name'', PStr (pin_name p)),
                                                      (''fields'', pin_fields p)])
                                       (block_pins (heap design1_built ! 2)))),
                  (''links'', PList (map (\<lambda>l. PDict [(''name'', PStr (link_name l)),
                                                       (''source'', PStr (link_source l)),
                                                       (''target'', PStr (link_target l))])
                                        (block_links (heap design1_built ! 2)))),
                  (''instance_of'', case block_instance_of (heap design1_built ! 2) of
                                      None \<Rightarrow> PNone
                                    | Some p \<Rightarrow> PStr p)])"
      by blast
    from ds obtain d1 d2 where
      "ds = [d1, d2]" "to_dict 2 (heap design1_built) 0 = Inr d1"
      "to_dict 2 (heap design1_built) 1 = Inr d2"
      unfolding kids by (auto simp: list_all2_Cons1)
    with rec show ?thesis
      unfolding fields using design1_build kids by simp
  qed
  from build_store_ordered [OF design3_build] have
    ordered: "\<forall>a \<in> {0..<length (heap design3_built)}.
                \<forall>c \<in> set (block_blocks (heap design3_built ! a)). c < a" and
    root3: "1 < length (heap design3_built)"
    by simp_all
  from root3 have inside: "0 < length (heap design3_built)" by arith
  have bound: "(0::nat) < Suc 0" by simp
  have fields:
    "block_name (heap design3_built ! 0) = ''C''"
    "block_type (heap design3_built ! 0) = ''component''"
    "block_fields (heap design3_built ! 0) = []"
    "block_blocks (heap design3_built ! 0) = []"
    "block_pins (heap design3_built ! 0) = [\<lparr> pin_name = ''p'', pin_fields = PDict [] \<rparr>]"
    "block_links (heap design3_built ! 0) = []"
    "block_instance_of (heap design3_built ! 0) = None"
    by code_simp+
  from to_dict_record [OF ordered inside bound] obtain ds where
    ds: "list_all2 (\<lambda>c d. to_dict 0 (heap design3_built) c = Inr d)
           (block_blocks (heap design3_built ! 0)) ds" and
    rec: "to_dict (Suc 0) (heap design3_built) 0 =
             Inr (PDict
               [(''name'', PStr (block_name (heap design3_built ! 0))),
                (''type'', PStr (block_type (heap design3_built ! 0))),
                (''fields'', PDict (block_fields (heap design3_built ! 0))),
                (''blocks'', PList ds),
                (''pins'', PList (map (\<lambda>p. PDict [(''name'', PStr (pin_name p)),
                                                    (''fields'', pin_fields p)])
                                     (block_pins (heap design3_built ! 0)))),
                (''links'', PList (map (\<lambda>l. PDict [(''name'', PStr (link_name l)),
                                                     (''source'', PStr (link_source l)),
                                                     (''target'', PStr (link_target l))])
                                      (block_links (heap design3_built ! 0)))),
                (''instance_of'', case block_instance_of (heap design3_built ! 0) of
                                    None \<Rightarrow> PNone
                                  | Some p \<Rightarrow> PStr p)])"
    by blast
  from ds have "ds = []" unfolding fields by simp
  with rec have third: "to_dict (Suc 0) (heap design3_built) 0 =
     Inr (PDict
       [(''name'', PStr ''C''),
        (''type'', PStr ''component''),
        (''fields'', PDict []),
        (''blocks'', PList []),
        (''pins'', PList [PDict [(''name'', PStr ''p''), (''fields'', PDict [])]]),
        (''links'', PList []),
        (''instance_of'', PNone)])"
    unfolding fields by simp
  show ?thesis
    by (rule conjI [OF first conjI [OF design3_build conjI [OF fields(7) third]]])
qed

text \<open>
  Against C9 as stated. The Block of \<^verbatim>\<open>C\<close> in the third design has no instance-of path,
  and its record has the entry \<^verbatim>\<open>instance_of\<close> all the same, with the value \<^verbatim>\<open>None\<close>: in
  the record of the whole design it is the last entry of the only child.
\<close>

theorem instance_of_entry_present:
  "build 2 design3 0 = Inr (1, design3_built) \<and>
   block_instance_of (heap design3_built ! 0) = None \<and>
   build_view 2 design3 0 =
     Inr (PDict
       [(''name'', PStr ''M''),
        (''type'', PStr ''module''),
        (''fields'', PDict []),
        (''blocks'', PList
           [PDict
              [(''name'', PStr ''C''),
               (''type'', PStr ''component''),
               (''fields'', PDict []),
               (''blocks'', PList []),
               (''pins'', PList [PDict [(''name'', PStr ''p''), (''fields'', PDict [])]]),
               (''links'', PList []),
               (''instance_of'', PNone)]]),
        (''pins'', PList []),
        (''links'', PList []),
        (''instance_of'', PStr ''M'')])"
  by (intro conjI; code_simp)

subsection \<open>What the traversal can raise, and what it registers\<close>

lemma visit_pin_returns: "\<exists>r. visit_pin m v s = Inr r"
proof -
  let ?i = "get_edges m v mode_in connects_to" and ?o = "get_edges m v mode_out connects_to"
  show ?thesis
  proof (cases "length ?i + length ?o = 1")
    case False
    then show ?thesis by (simp add: visit_pin_def Let_def split: prod.splits)
  next
    case True
    then have "length ?i = 1 \<and> length ?o = 0 \<or> length ?i = 0 \<and> length ?o = 1" by arith
    then show ?thesis
      by (auto simp: visit_pin_def Let_def split: prod.splits)
  qed
qed

lemma visit_leaf_raises:
  "vertex_type m c = pin \<or> vertex_type m c = signal \<Longrightarrow> \<exists>r. visit_leaf m c s = Inr r"
  using visit_pin_returns [of m c s]
  by (auto simp: visit_leaf_def split: prod.splits option.splits)

lemma wander_targets_types: "\<forall>c \<in> set (wander_targets m v md et vts). vertex_type m c \<in> set vts"
  by (simp add: wander_targets_def)

text \<open>
  The traversal fails in one way only, by a recursion that is too deep: the vertices
  that \<^verbatim>\<open>wander\<close> hands to \<^verbatim>\<open>visit\<close> all have a rule, and \<^verbatim>\<open>target\<close> is bound whenever
  \<^verbatim>\<open>visit_pin\<close> reads it.
\<close>

lemma traversal_raises:
  shows "\<forall>e. generic_visit_block n1 m1 v1 s1 = Inl e \<longrightarrow> e = RecursionError"
    and "(\<forall>c \<in> set cs2. vertex_type m2 c \<in> set [component, module]) \<longrightarrow>
           (\<forall>e. wander_blocks n2 m2 cs2 s2 = Inl e \<longrightarrow> e = RecursionError)"
    and "\<forall>e. wander_interface n3 m3 v3 s3 = Inl e \<longrightarrow> e = RecursionError"
    and "(\<forall>c \<in> set cs4. vertex_type m4 c \<in> set [pin, signal, interface]) \<longrightarrow>
           (\<forall>e. wander_pins n4 m4 cs4 s4 = Inl e \<longrightarrow> e = RecursionError)"
    and "\<forall>e. visit_interface n5 m5 v5 s5 = Inl e \<longrightarrow> e = RecursionError"
proof (induction n1 m1 v1 s1 and n2 m2 cs2 s2 and n3 m3 v3 s3 and n4 m4 cs4 s4 and n5 m5 v5 s5
    rule: generic_visit_block_wander_blocks_wander_interface_wander_pins_visit_interface.induct)
  case (2 n m v s)
  show ?case
  proof (intro allI impI)
    fix e assume run: "generic_visit_block (Suc n) m v s = Inl e"
    let ?cs = "wander_targets m v mode_in part_of [component, module]"
    show "e = RecursionError"
    proof (cases "wander_blocks n m ?cs (enter_block v s)")
      case (Inl x)
      with run have "x = e" by simp
      with "2.IH"(1) Inl wander_targets_types [of m v mode_in part_of "[component, module]"]
      show ?thesis by blast
    next
      case (Inr r)
      obtain blocks s2 where r: "r = (blocks, s2)" by (cases r)
      with Inr run obtain x where "wander_interface n m v s2 = Inl x" "x = e"
        by (auto simp del: wander_interface.simps split: sum.splits)
      with "2.IH"(2) [OF Inr r [symmetric]] show ?thesis by blast
    qed
  qed
next
  case (4 n m c cs s)
  show ?case
  proof (intro impI allI)
    fix e
    assume types: "\<forall>x \<in> set (c # cs). vertex_type m x \<in> set [component, module]"
      and run: "wander_blocks n m (c # cs) s = Inl e"
    from types have ty: "vertex_type m c = component \<or> vertex_type m c = module" by auto
    let ?first = "if vertex_type m c = component \<or> vertex_type m c = module
            then generic_visit_block n m c s else Inl DispatchError"
    show "e = RecursionError"
    proof (cases "generic_visit_block n m c s")
      case (Inl x)
      with run ty have "x = e" by (simp del: generic_visit_block.simps)
      with "4.IH"(1) [OF ty] Inl show ?thesis by blast
    next
      case (Inr r)
      obtain b s1 where r: "r = (b, s1)" by (cases r)
      with Inr ty have first: "?first = Inr (b, s1)" by simp
      with run have "wander_blocks n m cs s1 = Inl e"
        by (auto simp del: generic_visit_block.simps split: sum.splits)
      with "4.IH"(2) [OF first refl] types show ?thesis by simp
    qed
  qed
next
  case (5 n m v s)
  show ?case
  proof (intro allI impI)
    fix e assume "wander_interface n m v s = Inl e"
    then have "wander_pins n m (wander_targets m v mode_in part_of [pin, signal, interface]) s
      = Inl e"
      by (auto split: sum.splits)
    with "5.IH" wander_targets_types [of m v mode_in part_of "[pin, signal, interface]"]
    show "e = RecursionError" by blast
  qed
next
  case (7 n m c cs s)
  show ?case
  proof (intro impI allI)
    fix e
    assume types: "\<forall>x \<in> set (c # cs). vertex_type m x \<in> set [pin, signal, interface]"
      and run: "wander_pins n m (c # cs) s = Inl e"
    let ?first = "if vertex_type m c = interface
            then (case visit_interface n m c s of
                    Inl e \<Rightarrow> Inl e
                  | Inr (ps, s1) \<Rightarrow> Inr (ListPins ps, s1))
            else visit_leaf m c s"
    show "e = RecursionError"
    proof (cases ?first)
      case (Inl x)
      with run have xe: "x = e" by (simp del: visit_interface.simps)
      show ?thesis
      proof (cases "vertex_type m c = interface")
        case True
        with Inl have "visit_interface n m c s = Inl x"
          by (auto simp del: visit_interface.simps split: sum.splits)
        with "7.IH"(1) [OF True] xe show ?thesis by blast
      next
        case False
        with types have "vertex_type m c = pin \<or> vertex_type m c = signal" by auto
        from visit_leaf_raises [OF this, of s] Inl False show ?thesis by auto
      qed
    next
      case (Inr r)
      obtain x s1 where r: "r = (x, s1)" by (cases r)
      with Inr have first: "?first = Inr (x, s1)" by simp
      with run have "wander_pins n m cs s1 = Inl e"
        by (auto simp del: visit_interface.simps split: sum.splits)
      with "7.IH"(2) [OF first refl] types show ?thesis by simp
    qed
  qed
next
  case (9 n m v s)
  then show ?case by (auto simp del: wander_interface.simps split: sum.splits)
qed simp_all

lemma visit_leaf_registers:
  "visit_leaf m c s = Inr (r, s') \<Longrightarrow>
   all_verticies s' = all_verticies s @ [c] \<and> vertex_type m c \<noteq> interface"
  by (auto simp: visit_leaf_def visit_pin_def visit_signal_def generic_visit_pin_def Let_def
      split: VertexType.splits sum.splits option.splits if_splits prod.splits)

lemma finish_block_registry:
  "finish_block m v blocks pins s = (a, s') \<Longrightarrow> all_verticies s' = all_verticies s"
  by (auto simp: finish_block_def Let_def)

text \<open>
  The registry after a visit is the registry before it and the vertices visited, in
  the order of the visits, except the interfaces: a block visit adds its vertex first,
  and nothing that a visit adds below it is an interface.
\<close>

lemma traversal_registry:
  shows "\<forall>a s'. generic_visit_block n1 m1 v1 s1 = Inr (a, s') \<longrightarrow>
           (\<exists>ext. all_verticies s' = all_verticies s1 @ v1 # ext \<and>
                  (\<forall>x \<in> set ext. vertex_type m1 x \<noteq> interface))"
    and "\<forall>bs s'. wander_blocks n2 m2 cs2 s2 = Inr (bs, s') \<longrightarrow>
           (\<exists>ext. all_verticies s' = all_verticies s2 @ ext \<and>
                  (\<forall>x \<in> set ext. vertex_type m2 x \<noteq> interface))"
    and "\<forall>r s'. wander_interface n3 m3 v3 s3 = Inr (r, s') \<longrightarrow>
           (\<exists>ext. all_verticies s' = all_verticies s3 @ ext \<and>
                  (\<forall>x \<in> set ext. vertex_type m3 x \<noteq> interface))"
    and "\<forall>r s'. wander_pins n4 m4 cs4 s4 = Inr (r, s') \<longrightarrow>
           (\<exists>ext. all_verticies s' = all_verticies s4 @ ext \<and>
                  (\<forall>x \<in> set ext. vertex_type m4 x \<noteq> interface))"
    and "\<forall>r s'. visit_interface n5 m5 v5 s5 = Inr (r, s') \<longrightarrow>
           (\<exists>ext. all_verticies s' = all_verticies s5 @ ext \<and>
                  (\<forall>x \<in> set ext. vertex_type m5 x \<noteq> interface))"
proof (induction n1 m1 v1 s1 and n2 m2 cs2 s2 and n3 m3 v3 s3 and n4 m4 cs4 s4 and n5 m5 v5 s5
    rule: generic_visit_block_wander_blocks_wander_interface_wander_pins_visit_interface.induct)
  case (2 n m v s)
  show ?case
  proof (intro allI impI)
    fix a s'
    assume run: "generic_visit_block (Suc n) m v s = Inr (a, s')"
    let ?cs = "wander_targets m v mode_in part_of [component, module]"
    from run obtain blocks s2 pins s3 where
      kids: "wander_blocks n m ?cs (enter_block v s) = Inr (blocks, s2)" and
      gather: "wander_interface n m v s2 = Inr (pins, s3)" and
      fin: "finish_block m v blocks pins s3 = (a, s')"
      by (auto split: sum.splits)
    from "2.IH"(1) kids obtain ext1 where
      e1: "all_verticies s2 = all_verticies s @ [v] @ ext1"
        "\<forall>x \<in> set ext1. vertex_type m x \<noteq> interface"
      by fastforce
    from "2.IH"(2) [OF kids refl] gather obtain ext2 where
      e2: "all_verticies s3 = all_verticies s2 @ ext2"
        "\<forall>x \<in> set ext2. vertex_type m x \<noteq> interface"
      by blast
    from finish_block_registry [OF fin] e1 e2
    have "all_verticies s' = all_verticies s @ v # (ext1 @ ext2) \<and>
        (\<forall>x \<in> set (ext1 @ ext2). vertex_type m x \<noteq> interface)"
      by auto
    then show "\<exists>ext. all_verticies s' = all_verticies s @ v # ext \<and>
        (\<forall>x \<in> set ext. vertex_type m x \<noteq> interface)"
      by blast
  qed
next
  case (4 n m c cs s)
  show ?case
  proof (intro allI impI)
    fix bs s'
    assume run: "wander_blocks n m (c # cs) s = Inr (bs, s')"
    let ?first = "if vertex_type m c = component \<or> vertex_type m c = module
            then generic_visit_block n m c s else Inl DispatchError"
    from run obtain b s1 rest where
      first: "?first = Inr (b, s1)" and more: "wander_blocks n m cs s1 = Inr (rest, s')"
      by (auto split: sum.splits)
    from first have ty: "vertex_type m c = component \<or> vertex_type m c = module"
      and visit: "generic_visit_block n m c s = Inr (b, s1)"
      by (auto split: if_splits)
    from "4.IH"(1) [OF ty] visit obtain ext1 where
      e1: "all_verticies s1 = all_verticies s @ c # ext1"
        "\<forall>x \<in> set ext1. vertex_type m x \<noteq> interface"
      by blast
    from "4.IH"(2) [OF first refl] more obtain ext2 where
      e2: "all_verticies s' = all_verticies s1 @ ext2"
        "\<forall>x \<in> set ext2. vertex_type m x \<noteq> interface"
      by blast
    from e1 e2 ty
    have "all_verticies s' = all_verticies s @ (c # ext1 @ ext2) \<and>
        (\<forall>x \<in> set (c # ext1 @ ext2). vertex_type m x \<noteq> interface)"
      by auto
    then show "\<exists>ext. all_verticies s' = all_verticies s @ ext \<and>
        (\<forall>x \<in> set ext. vertex_type m x \<noteq> interface)"
      by blast
  qed
next
  case (5 n m v s)
  then show ?case by (auto split: sum.splits)
next
  case (7 n m c cs s)
  show ?case
  proof (intro allI impI)
    fix r s'
    assume run: "wander_pins n m (c # cs) s = Inr (r, s')"
    let ?first = "if vertex_type m c = interface
            then (case visit_interface n m c s of
                    Inl e \<Rightarrow> Inl e
                  | Inr (ps, s1) \<Rightarrow> Inr (ListPins ps, s1))
            else visit_leaf m c s"
    from run obtain x s1 rs where
      first: "?first = Inr (x, s1)" and rest: "wander_pins n m cs s1 = Inr (rs, s')"
      by (auto split: sum.splits)
    have "\<exists>ext1. all_verticies s1 = all_verticies s @ ext1 \<and>
        (\<forall>x \<in> set ext1. vertex_type m x \<noteq> interface)"
    proof (cases "vertex_type m c = interface")
      case True
      with first obtain ps where "visit_interface n m c s = Inr (ps, s1)"
        by (auto split: sum.splits)
      with "7.IH"(1) [OF True] show ?thesis by blast
    next
      case False
      with first have "visit_leaf m c s = Inr (x, s1)" by simp
      from visit_leaf_registers [OF this]
      have "all_verticies s1 = all_verticies s @ [c] \<and>
          (\<forall>x \<in> set [c]. vertex_type m x \<noteq> interface)"
        by simp
      then show ?thesis by blast
    qed
    then obtain ext1 where
      e1: "all_verticies s1 = all_verticies s @ ext1"
        "\<forall>x \<in> set ext1. vertex_type m x \<noteq> interface"
      by blast
    from "7.IH"(2) [OF first refl] rest obtain ext2 where
      e2: "all_verticies s' = all_verticies s1 @ ext2"
        "\<forall>x \<in> set ext2. vertex_type m x \<noteq> interface"
      by blast
    from e1 e2
    have "all_verticies s' = all_verticies s @ (ext1 @ ext2) \<and>
        (\<forall>x \<in> set (ext1 @ ext2). vertex_type m x \<noteq> interface)"
      by auto
    then show "\<exists>ext. all_verticies s' = all_verticies s @ ext \<and>
        (\<forall>x \<in> set ext. vertex_type m x \<noteq> interface)"
      by blast
  qed
next
  case (9 n m v s)
  then show ?case by (auto split: sum.splits)
qed simp_all

text \<open>
  So no interface below the root of a build is ever in the registry, while the pins,
  elided or not, and the signals are.
\<close>

lemma build_registry:
  assumes "build fuel m main = Inr (root, bob)"
  shows "\<forall>x \<in> set (all_verticies bob). x = main \<or> vertex_type m x \<noteq> interface"
proof -
  from assms obtain bob0 where
    visit: "generic_visit_block fuel m main Bob_init = Inr (root, bob0)" and
    "Suc root = length (heap bob0)" "length (heap bob) = length (heap bob0)"
    "block_directory_by_path bob = block_directory_by_path bob0" and
    reg: "all_verticies bob = all_verticies bob0" and
    "\<forall>(p, a) \<in> set (block_directory_by_path bob0). a < length (heap bob0)"
    "\<forall>a < length (heap bob0). heap bob ! a =
       (if a = root then (heap bob0 ! a)\<lparr> block_instance_of := Some (path m main) \<rparr>
        else heap bob0 ! a)
       \<lparr> block_links := links_at m (set (all_verticies bob0)) (block_directory_by_path bob0) a
            (filter (\<lambda>e. edge_type e = connects_to) (es m)) \<rparr>"
    by (rule build_store)
  from traversal_registry(1) visit obtain ext where
    "all_verticies bob0 = all_verticies Bob_init @ main # ext"
    "\<forall>x \<in> set ext. vertex_type m x \<noteq> interface"
    by blast
  with reg show ?thesis by (auto simp: Bob_init_def)
qed

lemma visit_pin_registers:
  "visit_pin m v s = Inr (x, s') \<Longrightarrow> all_verticies s' = all_verticies s @ [v]"
  by (auto simp: visit_pin_def generic_visit_pin_def Let_def
      split: option.splits if_splits prod.splits)

lemma visit_signal_registers:
  "visit_signal m v s = (p, s') \<Longrightarrow> all_verticies s' = all_verticies s @ [v]"
  by (auto simp: visit_signal_def generic_visit_pin_def Let_def)

text \<open>
  C6, where the code departs from it. In the second design the interface \<^verbatim>\<open>I\<close> is the
  only child that \<^verbatim>\<open>wander_interface\<close> visits from \<^verbatim>\<open>M\<close>, and its visit yields the pins
  \<^verbatim>\<open>I-a\<close> and \<^verbatim>\<open>I-b\<close>; after the traversal the registry holds \<^verbatim>\<open>M\<close> and the two pins,
  and not the interface.
\<close>

theorem interface_not_registered:
  "vertex_type design2 1 = interface \<and>
   wander_targets design2 0 mode_in part_of [pin, signal, interface] = [1] \<and>
   generic_visit_block 2 design2 0 Bob_init = Inr (0, design2_traversed) \<and>
   map pin_name (block_pins (heap design2_traversed ! 0)) = [''I-a'', ''I-b''] \<and>
   all_verticies design2_traversed = [0, 2, 3] \<and>
   1 \<notin> set (all_verticies design2_traversed)"
  by (intro conjI; code_simp)
subsection \<open>The outcome of the link loop\<close>

lemma scoped_store_Nil [simp]: "scoped_store m all_indicies dir [] h = h"
  by (simp add: scoped_store_def map_nth)

lemma length_scoped_store [simp]: "length (scoped_store m all_indicies dir cs h) = length h"
  by (simp add: scoped_store_def)






subsection \<open>The pin list of a Block\<close>

lemma generic_visit_pin_pin_of: "fst (generic_visit_pin m v s) = pin_of m v"
  by (simp add: generic_visit_pin_def pin_of_def Let_def)

lemma visit_leaf_pins:
  assumes "vertex_type m c = pin \<or> vertex_type m c = signal"
  shows "\<exists>r s'. visit_leaf m c s = Inr (r, s') \<and>
           flatten_listy [r] =
             (if vertex_type m c = pin \<and> elision_condition m c then [] else [pin_of m c])"
proof (cases "vertex_type m c = pin")
  case True
  then show ?thesis
    by (cases "elision_condition m c")
       (simp_all add: visit_leaf_def visit_pin_result generic_visit_pin_pin_of)
next
  case False
  with assms have "vertex_type m c = signal" by simp
  then show ?thesis
    by (simp add: visit_leaf_def visit_signal_def generic_visit_pin_pin_of split: prod.splits)
       (metis fst_conv generic_visit_pin_pin_of)
qed

lemma flatten_listy_Cons: "flatten_listy (r # rs) = flatten_listy [r] @ flatten_listy rs"
  by (cases r) simp_all

text \<open>
  The traversal computes the pin list of the specification: the pins that a visit
  gathers depend on the graph only, and the visit fails exactly when the interfaces are
  nested deeper than the bound.
\<close>

lemma traversal_pins:
  shows "\<forall>a s'. generic_visit_block n1 m1 v1 s1 = Inr (a, s') \<longrightarrow>
           (\<exists>k. n1 = Suc k \<and> flat_pins k m1 v1 = Some (block_pins (heap s' ! a)))"
    and "wander_blocks n2 m2 cs2 s2 = wander_blocks n2 m2 cs2 s2"
    and "map_sum id fst (wander_interface n3 m3 v3 s3) =
           (case flat_pins n3 m3 v3 of None \<Rightarrow> Inl RecursionError | Some ps \<Rightarrow> Inr ps)"
    and "(\<forall>c \<in> set cs4. vertex_type m4 c \<in> set [pin, signal, interface]) \<longrightarrow>
           map_sum id (\<lambda>r. flatten_listy (fst r)) (wander_pins n4 m4 cs4 s4) =
           (case flat_pins_of n4 m4 cs4 of None \<Rightarrow> Inl RecursionError | Some ps \<Rightarrow> Inr ps)"
    and "map_sum id fst (visit_interface n5 m5 v5 s5) =
           (case interface_pins n5 m5 v5 of None \<Rightarrow> Inl RecursionError | Some ps \<Rightarrow> Inr ps)"
proof (induction n1 m1 v1 s1 and n2 m2 cs2 s2 and n3 m3 v3 s3 and n4 m4 cs4 s4 and n5 m5 v5 s5
    rule: generic_visit_block_wander_blocks_wander_interface_wander_pins_visit_interface.induct)
  case (2 n m v s)
  show ?case
  proof (intro allI impI)
    fix a s'
    assume run: "generic_visit_block (Suc n) m v s = Inr (a, s')"
    let ?cs = "wander_targets m v mode_in part_of [component, module]"
    from run obtain blocks s2 pins s3 where
      kids: "wander_blocks n m ?cs (enter_block v s) = Inr (blocks, s2)" and
      gather: "wander_interface n m v s2 = Inr (pins, s3)" and
      fin: "finish_block m v blocks pins s3 = (a, s')"
      by (auto split: sum.splits)
    from "2.IH"(2) [OF kids refl] gather have "flat_pins n m v = Some pins"
      by (auto simp del: wander_interface.simps flat_pins.simps split: option.splits)
    moreover from finish_block_heap [OF fin] have "block_pins (heap s' ! a) = pins"
      by auto
    ultimately show "\<exists>k. Suc n = Suc k \<and> flat_pins k m v = Some (block_pins (heap s' ! a))"
      by simp
  qed
next
  case (5 n m v s)
  let ?cs = "wander_targets m v mode_in part_of [pin, signal, interface]"
  have "\<forall>c \<in> set ?cs. vertex_type m c \<in> set [pin, signal, interface]"
    by (rule wander_targets_types)
  with "5.IH" have "map_sum id (\<lambda>r. flatten_listy (fst r)) (wander_pins n m ?cs s) =
      (case flat_pins_of n m ?cs of None \<Rightarrow> Inl RecursionError | Some ps \<Rightarrow> Inr ps)"
    by blast
  then show ?case
    by (cases "wander_pins n m ?cs s") (auto split: option.splits)
next
  case (6 n m s)
  show ?case by simp
next
  case (7 n m c cs s)
  show ?case
  proof (intro impI)
    assume types: "\<forall>x \<in> set (c # cs). vertex_type m x \<in> set [pin, signal, interface]"
    define visited where "visited =
           (if vertex_type m c = interface
            then (case visit_interface n m c s of
                    Inl e \<Rightarrow> Inl e
                  | Inr (ps, s1) \<Rightarrow> Inr (ListPins ps, s1))
            else visit_leaf m c s)"
    define given where "given =
           (if vertex_type m c = interface then interface_pins n m c
            else if vertex_type m c = pin \<and> elision_condition m c then Some []
            else Some [pin_of m c])"
    have first: "map_sum id (\<lambda>r. flatten_listy [fst r]) visited =
        (case given of None \<Rightarrow> Inl RecursionError | Some ps \<Rightarrow> Inr ps)"
    proof (cases "vertex_type m c = interface")
      case True
      from "7.IH"(1) [OF True] True show ?thesis
        unfolding visited_def given_def
        by (cases "visit_interface n m c s")
           (auto simp del: visit_interface.simps interface_pins.simps split: option.splits)
    next
      case False
      with types have "vertex_type m c = pin \<or> vertex_type m c = signal" by auto
      from visit_leaf_pins [OF this, of s] False show ?thesis
        unfolding visited_def given_def by auto
    qed
    have wp: "wander_pins n m (c # cs) s =
        (case visited of
           Inl e \<Rightarrow> Inl e
         | Inr (r, s1) \<Rightarrow>
             (case wander_pins n m cs s1 of
                Inl e \<Rightarrow> Inl e
              | Inr (rs, s2) \<Rightarrow> Inr (r # rs, s2)))"
      unfolding visited_def by (simp del: visit_interface.simps)
    have fp: "flat_pins_of n m (c # cs) =
        (case given of
           None \<Rightarrow> None
         | Some ps \<Rightarrow>
             (case flat_pins_of n m cs of
                None \<Rightarrow> None
              | Some rest \<Rightarrow> Some (ps @ rest)))"
      unfolding given_def by (simp del: interface_pins.simps)
    show "map_sum id (\<lambda>r. flatten_listy (fst r)) (wander_pins n m (c # cs) s) =
        (case flat_pins_of n m (c # cs) of None \<Rightarrow> Inl RecursionError | Some ps \<Rightarrow> Inr ps)"
    proof (cases visited)
      case (Inl e)
      with first have "given = None" "e = RecursionError"
        by (simp_all split: option.splits)
      with Inl show ?thesis unfolding wp fp by simp
    next
      case (Inr r)
      obtain x s1 where r: "r = (x, s1)" by (cases r)
      with Inr have f: "visited = Inr (x, s1)" by simp
      with first have spec: "given = Some (flatten_listy [x])"
        by (simp del: flatten_listy.simps split: option.splits)
      from f have "(if vertex_type m c = interface
            then (case visit_interface n m c s of
                    Inl e \<Rightarrow> Inl e
                  | Inr (ps, s1) \<Rightarrow> Inr (ListPins ps, s1))
            else visit_leaf m c s) = Inr (x, s1)"
        by (simp only: visited_def)
      note ih = "7.IH"(2) [OF this refl]
      have "\<forall>x \<in> set cs. vertex_type m x \<in> set [pin, signal, interface]"
        using types by simp
      with ih
      have rest: "map_sum id (\<lambda>r. flatten_listy (fst r)) (wander_pins n m cs s1) =
          (case flat_pins_of n m cs of None \<Rightarrow> Inl RecursionError | Some ps \<Rightarrow> Inr ps)"
        by (rule mp)
      show ?thesis
      proof (cases "wander_pins n m cs s1")
        case (Inl e)
        with rest have "flat_pins_of n m cs = None" "e = RecursionError"
          by (simp_all split: option.splits)
        with Inl show ?thesis unfolding wp fp f spec by simp
      next
        case (Inr q)
        obtain rs s2 where q: "q = (rs, s2)" by (cases q)
        with rest Inr have "flat_pins_of n m cs = Some (flatten_listy rs)"
          by (simp split: option.splits)
        with Inr q show ?thesis unfolding wp fp f spec
          by (simp add: flatten_listy_Cons [of x rs] del: flatten_listy.simps)
      qed
    qed
  qed
next
  case (8 m v s)
  show ?case by simp
next
  case (9 n m v s)
  then show ?case
    by (cases "wander_interface n m v s")
       (auto simp del: wander_interface.simps flat_pins.simps split: option.splits)
qed simp_all

subsection \<open>The Blocks that a visit makes\<close>

lemma finish_block_source:
  "finish_block m v blocks pins s = (a, s') \<Longrightarrow>
   \<exists>b. heap s' = heap s @ [b] \<and> block_source b = v"
  by (auto simp: finish_block_def Let_def)

text \<open>
  A block visit adds to the store the Blocks of the components and modules below its
  vertex, and then the Block of the vertex itself; it makes no Block for anything else.
\<close>

lemma traversal_blocks:
  shows "\<forall>a s'. generic_visit_block n1 m1 v1 s1 = Inr (a, s') \<longrightarrow>
           (\<exists>made b. heap s' = heap s1 @ made @ [b] \<and> block_source b = v1 \<and>
              (\<forall>x \<in> set made. vertex_type m1 (block_source x) = component \<or>
                                vertex_type m1 (block_source x) = module))"
    and "\<forall>bs s'. wander_blocks n2 m2 cs2 s2 = Inr (bs, s') \<longrightarrow>
           (\<exists>made. heap s' = heap s2 @ made \<and>
              (\<forall>x \<in> set made. vertex_type m2 (block_source x) = component \<or>
                                vertex_type m2 (block_source x) = module))"
    and "wander_interface n3 m3 v3 s3 = wander_interface n3 m3 v3 s3"
    and "wander_pins n4 m4 cs4 s4 = wander_pins n4 m4 cs4 s4"
    and "visit_interface n5 m5 v5 s5 = visit_interface n5 m5 v5 s5"
proof (induction n1 m1 v1 s1 and n2 m2 cs2 s2 and n3 m3 v3 s3 and n4 m4 cs4 s4 and n5 m5 v5 s5
    rule: generic_visit_block_wander_blocks_wander_interface_wander_pins_visit_interface.induct)
  case (2 n m v s)
  show ?case
  proof (intro allI impI)
    fix a s'
    assume run: "generic_visit_block (Suc n) m v s = Inr (a, s')"
    let ?cs = "wander_targets m v mode_in part_of [component, module]"
    from run obtain blocks s2 pins s3 where
      kids: "wander_blocks n m ?cs (enter_block v s) = Inr (blocks, s2)" and
      gather: "wander_interface n m v s2 = Inr (pins, s3)" and
      fin: "finish_block m v blocks pins s3 = (a, s')"
      by (auto split: sum.splits)
    from "2.IH"(1) kids obtain made where
      made: "heap s2 = heap s @ made"
        "\<forall>x \<in> set made. vertex_type m (block_source x) = component \<or>
                          vertex_type m (block_source x) = module"
      by fastforce
    from wander_interface_same_blocks [OF gather] have "heap s3 = heap s2"
      by (simp add: same_blocks_def)
    moreover from finish_block_source [OF fin] obtain b where
      "heap s' = heap s3 @ [b]" "block_source b = v"
      by blast
    ultimately have "heap s' = heap s @ made @ [b] \<and> block_source b = v"
      using made(1) by simp
    with made(2) show "\<exists>made b. heap s' = heap s @ made @ [b] \<and> block_source b = v \<and>
        (\<forall>x \<in> set made. vertex_type m (block_source x) = component \<or>
                          vertex_type m (block_source x) = module)"
      by blast
  qed
next
  case (4 n m c cs s)
  show ?case
  proof (intro allI impI)
    fix bs s'
    assume run: "wander_blocks n m (c # cs) s = Inr (bs, s')"
    let ?first = "if vertex_type m c = component \<or> vertex_type m c = module
            then generic_visit_block n m c s else Inl DispatchError"
    from run obtain b s1 rest where
      first: "?first = Inr (b, s1)" and more: "wander_blocks n m cs s1 = Inr (rest, s')"
      by (auto split: sum.splits)
    from first have ty: "vertex_type m c = component \<or> vertex_type m c = module"
      and visit: "generic_visit_block n m c s = Inr (b, s1)"
      by (auto split: if_splits)
    from "4.IH"(1) [OF ty] visit obtain made1 blk where
      one: "heap s1 = heap s @ made1 @ [blk]" "block_source blk = c"
        "\<forall>x \<in> set made1. vertex_type m (block_source x) = component \<or>
                           vertex_type m (block_source x) = module"
      by blast
    from "4.IH"(2) [OF first refl] more obtain made2 where
      two: "heap s' = heap s1 @ made2"
        "\<forall>x \<in> set made2. vertex_type m (block_source x) = component \<or>
                           vertex_type m (block_source x) = module"
      by blast
    from one two ty
    have "heap s' = heap s @ (made1 @ [blk] @ made2) \<and>
        (\<forall>x \<in> set (made1 @ [blk] @ made2). vertex_type m (block_source x) = component \<or>
                           vertex_type m (block_source x) = module)"
      by auto
    then show "\<exists>made. heap s' = heap s @ made \<and>
        (\<forall>x \<in> set made. vertex_type m (block_source x) = component \<or>
                          vertex_type m (block_source x) = module)"
      by blast
  qed
qed simp_all

lemma generic_visit_block_made:
  assumes "generic_visit_block n m v s = Inr (a, s')"
  shows "block_source (heap s' ! a) = v \<and>
         (\<forall>x. length (heap s) \<le> x \<and> x < a \<longrightarrow>
            vertex_type m (block_source (heap s' ! x)) = component \<or>
            vertex_type m (block_source (heap s' ! x)) = module)"
proof -
  from traversal_blocks(1) assms obtain made b where
    h: "heap s' = heap s @ made @ [b]" and b: "block_source b = v" and
    made: "\<forall>x \<in> set made. vertex_type m (block_source x) = component \<or>
                            vertex_type m (block_source x) = module"
    by blast
  from generic_visit_block_store [OF assms] h have a: "a = length (heap s) + length made"
    by simp
  have "block_source (heap s' ! a) = v"
    using h b a by (simp add: nth_append)
  moreover have "\<forall>x. length (heap s) \<le> x \<and> x < a \<longrightarrow>
            vertex_type m (block_source (heap s' ! x)) = component \<or>
            vertex_type m (block_source (heap s' ! x)) = module"
  proof (intro allI impI)
    fix x assume x: "length (heap s) \<le> x \<and> x < a"
    with a have inside: "x - length (heap s) < length made" by arith
    with h x have "heap s' ! x = made ! (x - length (heap s))"
      by (simp add: nth_append)
    with inside have "heap s' ! x \<in> set made" by simp
    with made show "vertex_type m (block_source (heap s' ! x)) = component \<or>
            vertex_type m (block_source (heap s' ! x)) = module"
      by blast
  qed
  ultimately show ?thesis by blast
qed

text \<open>
  C4, as amended. The pins that \<^verbatim>\<open>wander_interface\<close> gathers from the children of a
  vertex are the pin list of the specification, and the visit fails only when the
  interfaces are nested deeper than the bound; gathering them makes no Block and no
  entry in the directory. The Block that the visit of a vertex makes is the Block of
  that vertex and has exactly that pin list, and every other Block made during the
  visit is the Block of a component or of a module: none is made for an interface
  below. In the pin list an interface child stands for no Pin of its own: in its place
  are the pins of its own pin, signal and interface children, each renamed to the
  interface's local name, a hyphen, and the name it had, so that the prefix of the
  outermost interface comes first.
\<close>

theorem block_pins_flattened:
  "map_sum id fst (wander_interface n m v s) =
     (case flat_pins n m v of None \<Rightarrow> Inl RecursionError | Some ps \<Rightarrow> Inr ps) \<and>
   (\<forall>ps s'. wander_interface n m v s = Inr (ps, s') \<longrightarrow>
      heap s' = heap s \<and> block_directory_by_path s' = block_directory_by_path s) \<and>
   (\<forall>a s'. generic_visit_block (Suc n) m v s = Inr (a, s') \<longrightarrow>
      a < length (heap s') \<and> flat_pins n m v = Some (block_pins (heap s' ! a)) \<and>
      block_source (heap s' ! a) = v \<and>
      (\<forall>x. length (heap s) \<le> x \<and> x < a \<longrightarrow>
         vertex_type m (block_source (heap s' ! x)) = component \<or>
         vertex_type m (block_source (heap s' ! x)) = module)) \<and>
   (vertex_type m c = interface \<longrightarrow>
      flat_pins_of (Suc n) m (c # cs) =
        (case flat_pins n m c of
           None \<Rightarrow> None
         | Some ps \<Rightarrow>
             (case flat_pins_of (Suc n) m cs of
                None \<Rightarrow> None
              | Some rest \<Rightarrow>
                  Some (map (\<lambda>p. p\<lparr> pin_name := ref m c @ ''-'' @ pin_name p \<rparr>) ps @ rest))))"
proof (intro conjI allI impI)
  show "map_sum id fst (wander_interface n m v s) =
     (case flat_pins n m v of None \<Rightarrow> Inl RecursionError | Some ps \<Rightarrow> Inr ps)"
    by (rule traversal_pins(3))
next
  fix ps s' assume "wander_interface n m v s = Inr (ps, s')"
  from wander_interface_same_blocks [OF this]
  show "heap s' = heap s" "block_directory_by_path s' = block_directory_by_path s"
    by (simp_all add: same_blocks_def)
next
  fix a s' assume run: "generic_visit_block (Suc n) m v s = Inr (a, s')"
  from generic_visit_block_store [OF run] show "a < length (heap s')" by simp
  from traversal_pins(1) run show "flat_pins n m v = Some (block_pins (heap s' ! a))"
    by blast
  from generic_visit_block_made [OF run] show "block_source (heap s' ! a) = v"
    by blast
  fix x assume "length (heap s) \<le> x \<and> x < a"
  with generic_visit_block_made [OF run]
  show "vertex_type m (block_source (heap s' ! x)) = component \<or>
        vertex_type m (block_source (heap s' ! x)) = module"
    by blast
next
  assume "vertex_type m c = interface"
  then show "flat_pins_of (Suc n) m (c # cs) =
        (case flat_pins n m c of
           None \<Rightarrow> None
         | Some ps \<Rightarrow>
             (case flat_pins_of (Suc n) m cs of
                None \<Rightarrow> None
              | Some rest \<Rightarrow>
                  Some (map (\<lambda>p. p\<lparr> pin_name := ref m c @ ''-'' @ pin_name p \<rparr>) ps @ rest)))"
    by (simp del: flat_pins.simps split: option.splits)
qed

text \<open>
  In the first design the component \<^verbatim>\<open>C2\<close> holds the pin \<^verbatim>\<open>q\<close> and the interface \<^verbatim>\<open>I\<close>,
  which holds the pin \<^verbatim>\<open>a\<close> and the interface \<^verbatim>\<open>J\<close> with the pin \<^verbatim>\<open>b\<close>. The visit of
  \<^verbatim>\<open>C2\<close> makes one Block, whose pins are \<^verbatim>\<open>q\<close>, \<^verbatim>\<open>I-a\<close> and \<^verbatim>\<open>I-J-b\<close>.
\<close>

theorem block_pins_flattened_witness:
  "vertex_type design1 6 = interface \<and> vertex_type design1 8 = interface \<and>
   map_option (map pin_name) (flat_pins 2 design1 2) = Some [''q'', ''I-a'', ''I-J-b''] \<and>
   (\<exists>a s'. generic_visit_block (Suc 2) design1 2 Bob_init = Inr (a, s') \<and>
      length (heap s') = 1 \<and> a < length (heap s') \<and>
      map pin_name (block_pins (heap s' ! a)) = [''q'', ''I-a'', ''I-J-b''])"
proof -
  have types: "vertex_type design1 6 = interface" "vertex_type design1 8 = interface"
    by code_simp+
  have spec: "map_option (map pin_name) (flat_pins 2 design1 2) = Some [''q'', ''I-a'', ''I-J-b'']"
    by code_simp
  have "case generic_visit_block (Suc 2) design1 2 Bob_init of
          Inl e \<Rightarrow> False | Inr (a, s') \<Rightarrow> length (heap s') = 1"
    by code_simp
  then obtain a s' where
    run: "generic_visit_block (Suc 2) design1 2 Bob_init = Inr (a, s')" and
    one: "length (heap s') = 1"
    by (auto split: sum.splits)
  from block_pins_flattened [of 2 design1 2 Bob_init] run
  have lt: "a < length (heap s')" and
    pins: "flat_pins 2 design1 2 = Some (block_pins (heap s' ! a))"
    by blast+
  from spec have names: "map pin_name (block_pins (heap s' ! a)) = [''q'', ''I-a'', ''I-J-b'']"
    unfolding pins by simp
  show ?thesis
    by (intro conjI exI [of _ a] exI [of _ s']) (rule types spec run one lt names)+
qed

text \<open>
  Against C4 as stated. The root of a build is visited by the rule for blocks whatever
  its type: built from the interface \<^verbatim>\<open>M.I\<close> of the second design, the tree is a Block of
  type \<^verbatim>\<open>interface\<close> for that vertex, with the pins \<^verbatim>\<open>a\<close> and \<^verbatim>\<open>b\<close> under their own names.
\<close>

theorem interface_root_is_block:
  "vertex_type design2 1 = interface \<and>
   build 2 design2 1 = Inr (0, design2_from_interface) \<and>
   block_source (heap design2_from_interface ! 0) = 1 \<and>
   block_name (heap design2_from_interface ! 0) = ''I'' \<and>
   block_type (heap design2_from_interface ! 0) = ''interface'' \<and>
   map pin_name (block_pins (heap design2_from_interface ! 0)) = [''a'', ''b'']"
  by (intro conjI; code_simp)

end
